theory Spec2Isabelle
  imports Complex_Main
begin

chapter \<open>MacroMaker: the deterministic search and replay engine\<close>

text \<open>
  A shallow embedding of the solver variants of the MacroMaker mod: the pure-compute
  depth-first solver of \<^verbatim>\<open>src/main.cpp\<close>, the engine-driven depth-first solver
  (\<^verbatim>\<open>runSolverAndRecord\<close>), the randomized trial solver (\<^verbatim>\<open>solverRun\<close>), the text
  encoding of a found run and the export file name. The host engine, the steady clock
  and the random number generator are oracles: they are parameters of the model.
\<close>

section \<open>Text formatting\<close>

text \<open>\<^verbatim>\<open>isalnum\<close> of the C library in the default "C" locale: digits and ASCII letters.\<close>

definition isalnum :: "char \<Rightarrow> bool" where
  "isalnum c = (let n = (of_char c :: nat) in
     (48 \<le> n \<and> n \<le> 57) \<or> (65 \<le> n \<and> n \<le> 90) \<or> (97 \<le> n \<and> n \<le> 122))"

text \<open>\<^verbatim>\<open>for (auto &c : lvlName) if (!isalnum(c)) c = '_';\<close>\<close>

definition sanitize :: "string \<Rightarrow> string" where
  "sanitize lvlName = map (\<lambda>c. if \<not> isalnum c then CHR ''_'' else c) lvlName"

text \<open>The alphabet \<^verbatim>\<open>[A-Za-z0-9_]\<close>, written out.\<close>

definition identifier_alphabet :: "char set" where
  "identifier_alphabet =
     set (''ABCDEFGHIJKLMNOPQRSTUVWXYZ'' @ ''abcdefghijklmnopqrstuvwxyz'' @ ''0123456789'' @ ''_'')"

text \<open>
  \<^verbatim>\<open>fmt::format("{}", i)\<close> for an \<^verbatim>\<open>int\<close>: the decimal digits, most significant first,
  after a minus sign when the value is negative.
\<close>

definition digit_char :: "nat \<Rightarrow> char" where
  "digit_char d = char_of (48 + d)"

fun digits :: "nat \<Rightarrow> string" where
  "digits n = (if n < 10 then [digit_char n] else digits (n div 10) @ [digit_char (n mod 10)])"

declare digits.simps [simp del]

definition format_int :: "int \<Rightarrow> string" where
  "format_int i = (if i < 0 then CHR ''-'' # digits (nat (- i)) else digits (nat i))"

text \<open>
  \<^verbatim>\<open>(int)t\<close>: the conversion of a 64-bit \<^verbatim>\<open>time_t\<close> to the 32-bit \<^verbatim>\<open>int\<close> of the
  platform, which keeps the low 32 bits (two's complement).
\<close>

definition int_cast :: "int \<Rightarrow> int" where
  "int_cast t = (t + 2 ^ 31) mod 2 ^ 32 - 2 ^ 31"

section \<open>Export boundary\<close>

text \<open>
  The level name: \<^verbatim>\<open>std::string lvlName = "macro";\<close> replaced by the level's own name
  when the play layer has a level.
\<close>

definition levelName :: "string option \<Rightarrow> string" where
  "levelName m_level = (case m_level of None \<Rightarrow> ''macro'' | Some n \<Rightarrow> n)"

text \<open>
  \<^verbatim>\<open>fmt::format("{}_{}.macro.txt", lvlName, (int)t)\<close> of the randomized variant and
  \<^verbatim>\<open>fmt::format("{}_{}.gdr", lvlName, (int)t)\<close> of the depth-first variants differ in
  the extension only.
\<close>

definition exportFileName :: "string \<Rightarrow> string option \<Rightarrow> int \<Rightarrow> string" where
  "exportFileName ext m_level t =
     sanitize (levelName m_level) @ ''_'' @ format_int (int_cast t) @ ext"

text \<open>
  \<^verbatim>\<open>onExportClicked\<close> of the randomized variant: nothing is written while no macro is
  recorded; otherwise the recorded text goes to the file of the computed name.
\<close>

definition onExportClicked :: "string \<Rightarrow> string option \<Rightarrow> int \<Rightarrow> (string \<times> string) option" where
  "onExportClicked lastReplayData m_level t =
     (if lastReplayData = [] then None
      else Some (exportFileName ''.macro.txt'' m_level t, lastReplayData))"

text \<open>\<^verbatim>\<open>onExportClicked\<close> of the engine-driven depth-first variants.\<close>

definition onExportClicked_gdr :: "string \<Rightarrow> string option \<Rightarrow> int \<Rightarrow> (string \<times> string) option" where
  "onExportClicked_gdr m_lastReplayData m_level t =
     (if m_lastReplayData = [] then None
      else Some (exportFileName ''.gdr'' m_level t, m_lastReplayData))"

text \<open>
  The file name built in \<^verbatim>\<open>onSolverFinished\<close> of \<^verbatim>\<open>src/main.cpp\<close>:
  \<^verbatim>\<open>fmt::format("{}/{}_{}.gdr", outFolder, lvlName, (int)t)\<close>.
\<close>

definition solverFinishedFileName :: "string \<Rightarrow> string option \<Rightarrow> int \<Rightarrow> string" where
  "solverFinishedFileName outFolder m_level t = outFolder @ ''/'' @ exportFileName ''.gdr'' m_level t"

text \<open>Reading a decimal numeral back (used to show that formatting loses nothing).\<close>

definition digit_val :: "char \<Rightarrow> nat" where
  "digit_val c = of_char c - 48"

definition parse_nat :: "string \<Rightarrow> nat" where
  "parse_nat s = foldl (\<lambda>acc c. acc * 10 + digit_val c) 0 s"

section \<open>Decision sequences and the replay encoder\<close>

text \<open>\<^verbatim>\<open>struct FrameInput { bool click = false; };\<close> A decision sequence is a list of them.\<close>

record FrameInput =
  click :: bool

text \<open>
  The frames recorded for a found run: \<^verbatim>\<open>for (int i = 0; i < seqLen; ++i) if
  (seq[i].click) foundClicks.push_back(i);\<close> The first argument is the index \<open>i\<close>.
\<close>

fun clickFrames :: "int \<Rightarrow> FrameInput list \<Rightarrow> int list" where
  "clickFrames i [] = []"
| "clickFrames i (x # xs) = (if click x then i # clickFrames (i + 1) xs else clickFrames (i + 1) xs)"

definition recordClicks :: "FrameInput list \<Rightarrow> int list" where
  "recordClicks seq = clickFrames 0 seq"

text \<open>
  The text of the macro: \<^verbatim>\<open>for (size_t i = 0; i < foundClicks.size(); ++i) { if (i) outStr
  += ","; outStr += fmt::format("{}", foundClicks[i]); }\<close>
\<close>

fun outStr_loop :: "nat \<Rightarrow> int list \<Rightarrow> string \<Rightarrow> string" where
  "outStr_loop i [] outStr = outStr"
| "outStr_loop i (c # cs) outStr =
     outStr_loop (Suc i) cs ((if i \<noteq> 0 then outStr @ '','' else outStr) @ format_int c)"

definition macroText :: "int list \<Rightarrow> string" where
  "macroText foundClicks = outStr_loop 0 foundClicks []"

text \<open>The encoder of the randomized variant: a decision sequence to its macro text.\<close>

definition encode :: "FrameInput list \<Rightarrow> string" where
  "encode seq = macroText (recordClicks seq)"

text \<open>
  The repository has no decoder. The one below reads the text format back and is the
  reference against which the encoder is measured: the fields between commas, each a
  decimal frame index, and the sequence that engages at exactly these frames and ends
  at the last of them.
\<close>

fun csv_fields :: "string \<Rightarrow> string \<Rightarrow> string list" where
  "csv_fields cur [] = [cur]"
| "csv_fields cur (c # cs) = (if c = CHR '','' then cur # csv_fields [] cs else csv_fields (cur @ [c]) cs)"

fun unclicks :: "int \<Rightarrow> int list \<Rightarrow> FrameInput list" where
  "unclicks i [] = []"
| "unclicks i (c # cs) =
     replicate (nat (c - i)) \<lparr>click = False\<rparr> @ \<lparr>click = True\<rparr> # unclicks (c + 1) cs"

definition decode :: "string \<Rightarrow> FrameInput list" where
  "decode text = (if text = [] then []
     else unclicks 0 (map (\<lambda>f. int (parse_nat f)) (csv_fields [] text)))"

text \<open>A decision sequence without its trailing frames that do not engage.\<close>

fun stripTrailing :: "FrameInput list \<Rightarrow> FrameInput list" where
  "stripTrailing [] = []"
| "stripTrailing (x # xs) =
     (if stripTrailing xs = [] \<and> \<not> click x then [] else x # stripTrailing xs)"

section \<open>The steady clock\<close>

text \<open>
  \<^verbatim>\<open>Clock::now()\<close> is an oracle: \<open>now k\<close> is the reading of the \<open>k\<close>-th call, in
  milliseconds, and every search state counts the calls made so far.
\<close>

record clock_state =
  clockReads :: nat

section \<open>The pure-compute solver of \<^verbatim>\<open>src/main.cpp\<close>\<close>

definition MAX_SEARCH_FRAMES :: int where
  "MAX_SEARCH_FRAMES = 60 * 60 * 2"

definition SOLVER_TIMEOUT_MS :: int where
  "SOLVER_TIMEOUT_MS = 40 * 1000"

definition SUCCESS_X_THRESHOLD :: int where
  "SUCCESS_X_THRESHOLD = 5000"

text \<open>The variables the recursive lambda captures: \<^verbatim>\<open>seq\<close> and \<^verbatim>\<open>foundSequence\<close>.\<close>

record solver_state = clock_state +
  seq :: "FrameInput list"
  foundSequence :: "FrameInput list"

text \<open>The copied player position, captured by the solver thread and never read.\<close>

record SolverInput =
  playerX :: real
  playerY :: real

text \<open>
  The recursive lambda \<^verbatim>\<open>dfs\<close>: the timeout check, the depth check, the placeholder
  success check \<^verbatim>\<open>(frame > 0) && (frame * 10 > SUCCESS_X_THRESHOLD)\<close>, then the branch
  without a click and the branch with one, each between \<^verbatim>\<open>push_back\<close> and
  \<^verbatim>\<open>pop_back\<close>.
\<close>

function solver_dfs :: "(nat \<Rightarrow> int) \<Rightarrow> int \<Rightarrow> int \<Rightarrow> solver_state \<Rightarrow> bool \<times> solver_state" where
  "solver_dfs now start frame st =
     (let elapsed = now (clockReads st) - start;
          st1 = st\<lparr>clockReads := Suc (clockReads st)\<rparr>
      in if elapsed > SOLVER_TIMEOUT_MS then (False, st1)
         else if frame \<ge> MAX_SEARCH_FRAMES then (False, st1)
         else if frame > 0 \<and> frame * 10 > SUCCESS_X_THRESHOLD
           then (True, st1\<lparr>foundSequence := seq st1\<rparr>)
         else
           (case solver_dfs now start (frame + 1) (st1\<lparr>seq := seq st1 @ [\<lparr>click = False\<rparr>]\<rparr>) of
              (ok, st2) \<Rightarrow>
                if ok then (True, st2)
                else
                  (case solver_dfs now start (frame + 1)
                          (st2\<lparr>seq := butlast (seq st2) @ [\<lparr>click = True\<rparr>]\<rparr>) of
                     (ok', st3) \<Rightarrow>
                       if ok' then (True, st3)
                       else (False, st3\<lparr>seq := butlast (seq st3)\<rparr>))))"
  by pat_completeness auto
termination
  by (relation "measure (\<lambda>(now, start, frame, st). nat (MAX_SEARCH_FRAMES - frame))") auto

declare solver_dfs.simps [simp del]

text \<open>
  The hand-over of the result. \<^verbatim>\<open>solverFound\<close> and \<^verbatim>\<open>foundSequence\<close> are locals of
  \<^verbatim>\<open>onRequestMacro\<close>; the thread's lambda and the callback it schedules capture both by
  reference (\<^verbatim>\<open>[this, &solverFound, &foundSequence, solverInput, pl]\<close>), and
  \<^verbatim>\<open>onRequestMacro\<close> returns right after \<^verbatim>\<open>solverThread.detach()\<close>, which ends the
  lifetime of both. An access through such a reference has a value only while the
  function that owns the local is running; afterwards it is a fault of the program.
\<close>

datatype owner = Running | Returned

datatype fault = UseAfterReturn

definition through_reference :: "owner \<Rightarrow> 'a \<Rightarrow> fault + 'a" where
  "through_reference own v = (case own of Running \<Rightarrow> Inr v | Returned \<Rightarrow> Inl UseAfterReturn)"

text \<open>
  The body of the solver thread: \<^verbatim>\<open>start = Clock::now()\<close>, \<^verbatim>\<open>dfs(0)\<close>, which on success
  assigns \<^verbatim>\<open>foundSequence\<close>, and the assignment to \<^verbatim>\<open>solverFound\<close>, both through the
  references. The thread runs beside the main thread: \<open>own\<close> says whether
  \<^verbatim>\<open>onRequestMacro\<close> is still running when the thread makes its last assignment.
\<close>

definition solverThread :: "(nat \<Rightarrow> int) \<Rightarrow> SolverInput \<Rightarrow> owner \<Rightarrow> fault + bool \<times> FrameInput list" where
  "solverThread now solverInput own =
     (let start = now 0;
          st0 = \<lparr>clockReads = 1, seq = [], foundSequence = []\<rparr>
      in case solver_dfs now start 0 st0 of
           (ok, st) \<Rightarrow> through_reference own (ok, foundSequence st))"

text \<open>
  The callback the thread schedules with \<^verbatim>\<open>runOnMainThread\<close>:
  \<^verbatim>\<open>onSolverFinished(pl, solverFound ? &foundSequence : nullptr)\<close>. The main thread is
  inside \<^verbatim>\<open>onRequestMacro\<close> when the solver thread is started and runs scheduled
  functions only from its scheduler, so the callback reads \<^verbatim>\<open>solverFound\<close> after
  \<^verbatim>\<open>onRequestMacro\<close> has returned. The result is the argument \<^verbatim>\<open>onSolverFinished\<close>
  receives.
\<close>

definition solverCallback :: "fault + bool \<times> FrameInput list \<Rightarrow> fault + FrameInput list option" where
  "solverCallback r =
     (case r of
        Inl e \<Rightarrow> Inl e
      | Inr (ok, fs) \<Rightarrow> through_reference Returned (if ok then Some fs else None))"

text \<open>
  The solving part of \<^verbatim>\<open>onRequestMacro\<close>: the thread is started and detached, the
  function returns, and the callback runs when the thread has finished.
\<close>

definition onRequestMacro :: "(nat \<Rightarrow> int) \<Rightarrow> SolverInput \<Rightarrow> owner \<Rightarrow> fault + FrameInput list option" where
  "onRequestMacro now solverInput own = solverCallback (solverThread now solverInput own)"

section \<open>The host engine\<close>

text \<open>
  The play layer is an oracle: a state of some type \<open>'s\<close> and the engine calls the
  solvers make on it, each a function of the state. \<open>has_player1\<close> is the test
  \<^verbatim>\<open>pl->m_player1 != nullptr\<close>; \<open>getRecordedReplay\<close> gives \<open>None\<close> where the call
  throws.
\<close>

record 's engine =
  update :: "'s \<Rightarrow> 's"
  pushButton :: "'s \<Rightarrow> 's"
  getCurrentPercentInt :: "'s \<Rightarrow> int"
  has_player1 :: "'s \<Rightarrow> bool"
  playerIsFalling :: "'s \<Rightarrow> bool"
  playerDestroyed :: "'s \<Rightarrow> bool"
  takeStateSnapshot :: "'s \<Rightarrow> 's"
  restoreStateSnapshot :: "'s \<Rightarrow> 's"
  startRecording :: "'s \<Rightarrow> 's"
  stopRecording :: "'s \<Rightarrow> 's"
  getRecordedReplay :: "'s \<Rightarrow> string option"
  isGameplayActive :: "'s \<Rightarrow> bool"
  startGame :: "'s \<Rightarrow> 's"
  resetLevelFromStart :: "'s \<Rightarrow> 's"

text \<open>A search state that drives a play layer: the clock reads and the engine state.\<close>

record 's play_state = clock_state +
  pl :: 's

text \<open>
  One simulated frame with its input, as every variant plays it:
  \<^verbatim>\<open>if (click) if (pl->m_player1) pl->m_player1->pushButton(Jump); pl->update(SIM_DT);\<close>
\<close>

definition stepFrame :: "'s engine \<Rightarrow> 's \<Rightarrow> FrameInput \<Rightarrow> 's" where
  "stepFrame E p x = update E (if click x \<and> has_player1 E p then pushButton E p else p)"

definition playFrames :: "'s engine \<Rightarrow> 's \<Rightarrow> FrameInput list \<Rightarrow> 's" where
  "playFrames E p xs = foldl (stepFrame E) p xs"

section \<open>The engine-driven depth-first solver\<close>

definition TIMEOUT_MS :: int where
  "TIMEOUT_MS = 40 * 1000"

text \<open>The variables the recursive lambda captures: \<^verbatim>\<open>current\<close> and \<^verbatim>\<open>bestSequence\<close>.\<close>

record 's search_state = "'s play_state" +
  current :: "FrameInput list"
  bestSequence :: "FrameInput list"

text \<open>
  The recursive lambda \<^verbatim>\<open>dfs\<close> of \<^verbatim>\<open>runSolverAndRecord\<close>: the timeout check, the depth
  check, the success check on the engine state, the death check, then the branch without
  a click (\<^verbatim>\<open>update\<close>, \<^verbatim>\<open>push_back\<close>, recursion, \<^verbatim>\<open>restoreStateSnapshot\<close>,
  \<^verbatim>\<open>pop_back\<close>) and the branch with one.
\<close>

function dfs :: "'s engine \<Rightarrow> (nat \<Rightarrow> int) \<Rightarrow> int \<Rightarrow> int \<Rightarrow> 's search_state \<Rightarrow> bool \<times> 's search_state" where
  "dfs E now startTime frame w =
     (let elapsed = now (clockReads w) - startTime;
          w1 = w\<lparr>clockReads := Suc (clockReads w)\<rparr>
      in if elapsed > TIMEOUT_MS then (False, w1)
         else if frame \<ge> MAX_SEARCH_FRAMES then (False, w1)
         else if getCurrentPercentInt E (pl w1) \<ge> 100
           then (True, w1\<lparr>bestSequence := current w1\<rparr>)
         else if has_player1 E (pl w1) \<and> playerIsFalling E (pl w1) \<and> playerDestroyed E (pl w1)
           then (False, w1)
         else
           (case dfs E now startTime (frame + 1)
                   (w1\<lparr>pl := update E (pl w1), current := current w1 @ [\<lparr>click = False\<rparr>]\<rparr>) of
              (ok, w2) \<Rightarrow>
                if ok then (True, w2)
                else
                  (let w3 = w2\<lparr>pl := restoreStateSnapshot E (pl w2), current := butlast (current w2)\<rparr>
                   in case dfs E now startTime (frame + 1)
                          (w3\<lparr>pl := stepFrame E (pl w3) \<lparr>click = True\<rparr>,
                              current := current w3 @ [\<lparr>click = True\<rparr>]\<rparr>) of
                     (ok', w4) \<Rightarrow>
                       if ok' then (True, w4)
                       else (False, w4\<lparr>pl := restoreStateSnapshot E (pl w4),
                                        current := butlast (current w4)\<rparr>))))"
  by pat_completeness auto
termination
  by (relation "measure (\<lambda>(E, now, startTime, frame, w). nat (MAX_SEARCH_FRAMES - frame))") auto

declare dfs.simps [simp del]

text \<open>
  What \<^verbatim>\<open>runSolverAndRecord\<close> leaves behind: the flag \<^verbatim>\<open>found\<close>, \<^verbatim>\<open>bestSequence\<close>,
  \<^verbatim>\<open>m_ui.m_lastReplayData\<close>, the texts shown on the status label in order, and the
  engine state. The function is modelled for a play layer that is not null (it
  returns at once otherwise): the snapshot is taken and the recording started, the
  start time is the first clock reading, \<^verbatim>\<open>dfs(0)\<close> runs, the recording is stopped
  and read (an empty string where the getter throws), and the snapshot is restored.
\<close>

record 's solver_outcome =
  dfs_found :: bool
  best :: "FrameInput list"
  m_lastReplayData :: string
  status :: "string list"
  final_pl :: 's

definition runSolverAndRecord :: "'s engine \<Rightarrow> (nat \<Rightarrow> int) \<Rightarrow> 's \<Rightarrow> 's solver_outcome" where
  "runSolverAndRecord E now p =
     (let p1 = startRecording E (takeStateSnapshot E p);
          startTime = now 0;
          w0 = \<lparr>clockReads = 1, pl = p1, current = [], bestSequence = []\<rparr>
      in case dfs E now startTime 0 w0 of
           (ok, w) \<Rightarrow>
             let p2 = stopRecording E (pl w);
                 replayString = (case getRecordedReplay E p2 of None \<Rightarrow> [] | Some r \<Rightarrow> r)
             in \<lparr>dfs_found = ok,
                 best = bestSequence w,
                 m_lastReplayData = replayString,
                 status = [''Preparing snapshot...'', ''Searching...'']
                   @ [if ok then ''Found run! Finalizing...''
                      else ''No run found (timeout or no solution).'']
                   @ (if replayString \<noteq> [] then [''Recording ready to export.'']
                      else if ok then [''Run found but replay retrieval failed; try built-in recording APIs.'']
                      else []),
                 final_pl = restoreStateSnapshot E p2\<rparr>)"

text \<open>
  When a call of \<^verbatim>\<open>dfs\<close> goes on to its two branches and when it reports success
  (it returns without a solution otherwise), and the states it hands to its two
  recursive calls and leaves after the second.
\<close>

definition dfs_enters :: "'s engine \<Rightarrow> (nat \<Rightarrow> int) \<Rightarrow> int \<Rightarrow> int \<Rightarrow> 's search_state \<Rightarrow> bool" where
  "dfs_enters E now startTime frame w =
     (now (clockReads w) - startTime \<le> TIMEOUT_MS \<and> frame < MAX_SEARCH_FRAMES
      \<and> getCurrentPercentInt E (pl w) < 100
      \<and> \<not> (has_player1 E (pl w) \<and> playerIsFalling E (pl w) \<and> playerDestroyed E (pl w)))"

definition dfs_succeeds :: "'s engine \<Rightarrow> (nat \<Rightarrow> int) \<Rightarrow> int \<Rightarrow> int \<Rightarrow> 's search_state \<Rightarrow> bool" where
  "dfs_succeeds E now startTime frame w =
     (now (clockReads w) - startTime \<le> TIMEOUT_MS \<and> frame < MAX_SEARCH_FRAMES
      \<and> getCurrentPercentInt E (pl w) \<ge> 100)"

definition noClickChild :: "'s engine \<Rightarrow> 's search_state \<Rightarrow> 's search_state" where
  "noClickChild E w =
     w\<lparr>clockReads := Suc (clockReads w), pl := update E (pl w),
       current := current w @ [\<lparr>click = False\<rparr>]\<rparr>"

definition clickChild :: "'s engine \<Rightarrow> 's search_state \<Rightarrow> 's search_state" where
  "clickChild E w2 =
     w2\<lparr>pl := stepFrame E (restoreStateSnapshot E (pl w2)) \<lparr>click = True\<rparr>,
        current := butlast (current w2) @ [\<lparr>click = True\<rparr>]\<rparr>"

definition afterClick :: "'s engine \<Rightarrow> 's search_state \<Rightarrow> 's search_state" where
  "afterClick E w4 =
     w4\<lparr>pl := restoreStateSnapshot E (pl w4), current := butlast (current w4)\<rparr>"

text \<open>
  \<open>dfs_call E now startTime (frame, w) (frame', w')\<close>: the call of \<^verbatim>\<open>dfs(frame')\<close> on
  the state \<open>w'\<close> is made while the call of \<^verbatim>\<open>dfs(frame)\<close> on the state \<open>w\<close> runs
  (or is that call itself).
\<close>

inductive dfs_call :: "'s engine \<Rightarrow> (nat \<Rightarrow> int) \<Rightarrow> int \<Rightarrow> int \<times> 's search_state \<Rightarrow> int \<times> 's search_state \<Rightarrow> bool"
  for E :: "'s engine" and now :: "nat \<Rightarrow> int" and startTime :: int where
  here: "dfs_call E now startTime c c"
| into_no_click:
    "dfs_enters E now startTime frame w \<Longrightarrow>
     dfs_call E now startTime (frame + 1, noClickChild E w) c \<Longrightarrow>
     dfs_call E now startTime (frame, w) c"
| into_click:
    "dfs_enters E now startTime frame w \<Longrightarrow>
     dfs E now startTime (frame + 1) (noClickChild E w) = (False, w2) \<Longrightarrow>
     dfs_call E now startTime (frame + 1, clickChild E w2) c \<Longrightarrow>
     dfs_call E now startTime (frame, w) c"

section \<open>Test adapters\<close>

text \<open>
  A toy play layer that records the inputs of the frames played since the level
  started. Its snapshot saves this history and its restore returns to the saved one.
  The level is completed by a click in frame 0, and the player is destroyed from the
  second frame on otherwise.
\<close>

record toy_sim =
  history :: "bool list"
  pressed :: bool
  saved :: "bool list"

definition toyEngine :: "toy_sim engine" where
  "toyEngine = \<lparr>
     update = (\<lambda>s. s\<lparr>history := history s @ [pressed s], pressed := False\<rparr>),
     pushButton = (\<lambda>s. s\<lparr>pressed := True\<rparr>),
     getCurrentPercentInt = (\<lambda>s. if history s \<noteq> [] \<and> hd (history s) then 100 else 0),
     has_player1 = (\<lambda>s. True),
     playerIsFalling = (\<lambda>s. 2 \<le> length (history s) \<and> \<not> hd (history s)),
     playerDestroyed = (\<lambda>s. 2 \<le> length (history s) \<and> \<not> hd (history s)),
     takeStateSnapshot = (\<lambda>s. s\<lparr>saved := history s\<rparr>),
     restoreStateSnapshot = (\<lambda>s. s\<lparr>history := saved s, pressed := False\<rparr>),
     startRecording = (\<lambda>s. s),
     stopRecording = (\<lambda>s. s),
     getRecordedReplay = (\<lambda>s. Some (map (\<lambda>b. if b then CHR ''1'' else CHR ''0'') (history s))),
     isGameplayActive = (\<lambda>s. \<not> (2 \<le> length (history s) \<and> \<not> hd (history s))),
     startGame = (\<lambda>s. s),
     resetLevelFromStart = (\<lambda>s. s\<lparr>history := [], pressed := False\<rparr>)\<rparr>"

definition toyStart :: toy_sim where
  "toyStart = \<lparr>history = [], pressed = False, saved = []\<rparr>"

section \<open>The randomized trial solver\<close>

text \<open>
  The constants of the randomized variant. Its \<^verbatim>\<open>MAX_SEARCH_FRAMES\<close> and \<^verbatim>\<open>TIMEOUT_MS\<close>
  differ from those of the depth-first variants and carry a suffix here.
\<close>

definition MAX_SEARCH_FRAMES_rand :: int where
  "MAX_SEARCH_FRAMES_rand = 60 * 30"

definition MAX_TRIALS :: int where
  "MAX_TRIALS = 500"

definition TIMEOUT_MS_rand :: int where
  "TIMEOUT_MS_rand = 35 * 1000"

text \<open>
  The random source is an oracle: a generator state of some type \<open>'r\<close> and the two
  distributions the solver draws from, \<^verbatim>\<open>std::uniform_int_distribution<int>(a, b)(rng)\<close>
  and \<^verbatim>\<open>std::uniform_real_distribution<float>(a, b)(rng)\<close>, each returning the value
  drawn and the next generator state. Floats are read as reals.
\<close>

record 'r rng_ops =
  uniform_int_distribution :: "int \<Rightarrow> int \<Rightarrow> 'r \<Rightarrow> int \<times> 'r"
  uniform_real_distribution :: "real \<Rightarrow> real \<Rightarrow> 'r \<Rightarrow> real \<times> 'r"

text \<open>
  \<^verbatim>\<open>for (int i = 0; i < seqLen; ++i) seq[i].click = (uniform_real_distribution<float>(0.0f,
  1.0f)(rng) < clickProb);\<close>
\<close>

fun drawClicks :: "'r rng_ops \<Rightarrow> real \<Rightarrow> nat \<Rightarrow> 'r \<Rightarrow> FrameInput list \<times> 'r" where
  "drawClicks R clickProb 0 r = ([], r)"
| "drawClicks R clickProb (Suc n) r =
     (case uniform_real_distribution R 0 1 r of
        (x, r1) \<Rightarrow>
          (case drawClicks R clickProb n r1 of
             (rest, r2) \<Rightarrow> (\<lparr>click = (x < clickProb)\<rparr> # rest, r2)))"

text \<open>
  The draws of one trial: the length \<^verbatim>\<open>seqLen\<close> from \<^verbatim>\<open>(60, std::min(MAX_SEARCH_FRAMES,
  600))\<close>, the click density \<^verbatim>\<open>clickProb\<close> from \<^verbatim>\<open>(0.01f, 0.15f)\<close>, and the sequence
  of \<^verbatim>\<open>seqLen\<close> frames. The vector \<^verbatim>\<open>seq(seqLen)\<close> has \<open>nat seqLen\<close> entries: the
  distribution returns a value between its bounds, so \<^verbatim>\<open>seqLen\<close> is not negative.
\<close>

definition drawSeq :: "'r rng_ops \<Rightarrow> 'r \<Rightarrow> int \<times> real \<times> FrameInput list \<times> 'r" where
  "drawSeq R r =
     (case uniform_int_distribution R 60 (min MAX_SEARCH_FRAMES_rand 600) r of
        (seqLen, r1) \<Rightarrow>
          (case uniform_real_distribution R (1 / 100) (15 / 100) r1 of
             (clickProb, r2) \<Rightarrow>
               (case drawClicks R clickProb (nat seqLen) r2 of
                  (sq, r3) \<Rightarrow> (seqLen, clickProb, sq, r3))))"

text \<open>
  How the simulation loop of a trial ends: by the success check (\<^verbatim>\<open>found = true\<close>), by
  the failure heuristic (\<^verbatim>\<open>died = true\<close>), or with the sequence played to its end.
\<close>

datatype trial_end = Succeeded | Died | Exhausted

text \<open>
  The simulation loop \<^verbatim>\<open>for (int f = 0; f < seqLen; ++f)\<close>: the frame is played, then
  \<^verbatim>\<open>getCurrentPercentInt() >= 100\<close> and \<^verbatim>\<open>!isGameplayActive()\<close> are checked. The result
  carries the frame \<open>f\<close> at which the loop was left and the engine state.
\<close>

fun simulate :: "'s engine \<Rightarrow> nat \<Rightarrow> FrameInput list \<Rightarrow> 's \<Rightarrow> trial_end \<times> nat \<times> 's" where
  "simulate E f [] p = (Exhausted, f, p)"
| "simulate E f (x # xs) p =
     (let p' = stepFrame E p x
      in if getCurrentPercentInt E p' \<ge> 100 then (Succeeded, f, p')
         else if \<not> isGameplayActive E p' then (Died, f, p')
         else simulate E (Suc f) xs p')"

text \<open>
  One trial played on the engine: \<^verbatim>\<open>resetLevelFromStart()\<close>, the two frames of
  \<^verbatim>\<open>update(SIM_DT)\<close> that let the engine reinitialize, then the simulation loop.
\<close>

definition playTrial :: "'s engine \<Rightarrow> 's \<Rightarrow> FrameInput list \<Rightarrow> trial_end \<times> nat \<times> 's" where
  "playTrial E p sq = simulate E 0 sq (update E (update E (resetLevelFromStart E p)))"

text \<open>
  The state of \<^verbatim>\<open>solverRun\<close>: the engine and the clock reads, the generator, \<^verbatim>\<open>found\<close>,
  \<^verbatim>\<open>foundClicks\<close> and the texts shown on the status label, in order.
\<close>

record ('s, 'r) trial_state = "'s play_state" +
  rng :: 'r
  found :: bool
  foundClicks :: "int list"
  statusLabel :: "string list"

text \<open>The body of the loop over trials, with the status update every tenth trial.\<close>

definition trialBody :: "'s engine \<Rightarrow> 'r rng_ops \<Rightarrow> int \<Rightarrow> ('s, 'r) trial_state \<Rightarrow> ('s, 'r) trial_state" where
  "trialBody E R trial w =
     (case drawSeq R (rng w) of
        (seqLen, clickProb, sq, r) \<Rightarrow>
          (case playTrial E (pl w) sq of
             (res, f, p) \<Rightarrow>
               (let w1 = w\<lparr>pl := p, rng := r\<rparr>;
                    w2 = (if res = Succeeded
                          then w1\<lparr>found := True, foundClicks := recordClicks sq\<rparr> else w1)
                in if trial mod 10 = 0
                   then w2\<lparr>statusLabel := statusLabel w2 @
                          [''Trying... trial '' @ format_int trial @ ''/'' @ format_int MAX_TRIALS
                           @ '' (seq '' @ format_int seqLen @ '')'']\<rparr>
                   else w2)))"

text \<open>
  \<^verbatim>\<open>for (int trial = 0; trial < MAX_TRIALS && Clock::now() < deadline && !found; ++trial)\<close>:
  the clock is read only when the trial count allows another trial.
\<close>

function trialLoop :: "'s engine \<Rightarrow> 'r rng_ops \<Rightarrow> (nat \<Rightarrow> int) \<Rightarrow> int \<Rightarrow> int \<Rightarrow> ('s, 'r) trial_state \<Rightarrow> ('s, 'r) trial_state" where
  "trialLoop E R now deadline trial w =
     (if trial < MAX_TRIALS
      then (let t = now (clockReads w);
                w1 = w\<lparr>clockReads := Suc (clockReads w)\<rparr>
            in if t < deadline \<and> \<not> found w1
               then trialLoop E R now deadline (trial + 1) (trialBody E R trial w1)
               else w1)
      else w)"
  by pat_completeness auto
termination
  by (relation "measure (\<lambda>(E, R, now, deadline, trial, w). nat (MAX_TRIALS - trial))") auto

declare trialLoop.simps [simp del]

text \<open>The fields of \<^verbatim>\<open>g_modalState\<close> the solver writes.\<close>

record modal_state =
  lastReplayData :: string
  running :: bool

text \<open>
  \<^verbatim>\<open>solverRun\<close>: nothing happens without a play layer; otherwise the clock is read (the
  unused \<^verbatim>\<open>now\<close>), the game is started when gameplay is not active, the generator is
  seeded (the seed is the initial generator state), the deadline is the second clock
  reading plus the timeout, the trials run, and the outcome is reported.
\<close>

definition solverRun :: "'s engine \<Rightarrow> 'r rng_ops \<Rightarrow> (nat \<Rightarrow> int) \<Rightarrow> 'r \<Rightarrow> 's option \<Rightarrow> modal_state
    \<Rightarrow> ('s, 'r) trial_state option \<times> modal_state" where
  "solverRun E R now seed m_pl g =
     (case m_pl of
        None \<Rightarrow> (None, g)
      | Some p \<Rightarrow>
          (let p1 = (if \<not> isGameplayActive E p then startGame E p else p);
               deadline = now 1 + TIMEOUT_MS_rand;
               w0 = \<lparr>clockReads = 2, pl = p1, rng = seed, found = False, foundClicks = [],
                     statusLabel = [''Solver starting...'']\<rparr>;
               w = trialLoop E R now deadline 0 w0
           in if found w
              then (Some (w\<lparr>statusLabel := statusLabel w @
                            [''Found a run! Preparing export...'', ''Ready to export (click Export).'']\<rparr>),
                    g\<lparr>lastReplayData := macroText (foundClicks w), running := False\<rparr>)
              else (Some (w\<lparr>statusLabel := statusLabel w @
                            [''No run found (timeout / trials exhausted).'']\<rparr>),
                    g\<lparr>running := False\<rparr>)))"

section \<open>Test adapters for the randomized solver\<close>

text \<open>
  A second toy play layer: a runner that completes the level three frames after the
  level started, whatever the input. It counts in \<open>ticks\<close> the frames simulated since
  the last level reset, also across snapshot restores; gameplay is active once the game
  was started.
\<close>

record runner =
  ticks :: nat
  pos :: nat
  started :: bool

definition runnerEngine :: "runner engine" where
  "runnerEngine = \<lparr>
     update = (\<lambda>s. s\<lparr>ticks := Suc (ticks s), pos := Suc (pos s)\<rparr>),
     pushButton = (\<lambda>s. s),
     getCurrentPercentInt = (\<lambda>s. if 3 \<le> pos s then 100 else 0),
     has_player1 = (\<lambda>s. True),
     playerIsFalling = (\<lambda>s. False),
     playerDestroyed = (\<lambda>s. False),
     takeStateSnapshot = (\<lambda>s. s),
     restoreStateSnapshot = (\<lambda>s. s\<lparr>pos := 0\<rparr>),
     startRecording = (\<lambda>s. s),
     stopRecording = (\<lambda>s. s),
     getRecordedReplay = (\<lambda>s. None),
     isGameplayActive = (\<lambda>s. started s),
     startGame = (\<lambda>s. s\<lparr>started := True\<rparr>),
     resetLevelFromStart = (\<lambda>s. \<lparr>ticks = 0, pos = 0, started = True\<rparr>)\<rparr>"

text \<open>
  A scripted random source: the generator state counts the draws; an integer draw gives
  the lower bound, a real draw the midpoint, but for draw 3, which gives the lower bound.
\<close>

definition scriptedRng :: "nat rng_ops" where
  "scriptedRng = \<lparr>
     uniform_int_distribution = (\<lambda>a b r. (a, Suc r)),
     uniform_real_distribution = (\<lambda>a b r. (if r = 3 then a else (a + b) / 2, Suc r))\<rparr>"

definition runnerStart :: runner where
  "runnerStart = \<lparr>ticks = 0, pos = 0, started = False\<rparr>"

section \<open>The calls of the pure-compute solver\<close>

text \<open>
  As for the engine-driven solver: the two ways a call of the recursive lambda of
  \<^verbatim>\<open>src/main.cpp\<close> goes on after its checks, the states it hands to its recursive
  calls, and the calls made while a call runs.
\<close>

definition solver_enters :: "(nat \<Rightarrow> int) \<Rightarrow> int \<Rightarrow> int \<Rightarrow> solver_state \<Rightarrow> bool" where
  "solver_enters now start frame st =
     (now (clockReads st) - start \<le> SOLVER_TIMEOUT_MS \<and> frame < MAX_SEARCH_FRAMES
      \<and> \<not> (frame > 0 \<and> frame * 10 > SUCCESS_X_THRESHOLD))"

definition solver_succeeds :: "(nat \<Rightarrow> int) \<Rightarrow> int \<Rightarrow> int \<Rightarrow> solver_state \<Rightarrow> bool" where
  "solver_succeeds now start frame st =
     (now (clockReads st) - start \<le> SOLVER_TIMEOUT_MS \<and> frame < MAX_SEARCH_FRAMES
      \<and> frame > 0 \<and> frame * 10 > SUCCESS_X_THRESHOLD)"

definition solverNoClickChild :: "solver_state \<Rightarrow> solver_state" where
  "solverNoClickChild st =
     st\<lparr>clockReads := Suc (clockReads st), seq := seq st @ [\<lparr>click = False\<rparr>]\<rparr>"

definition solverClickChild :: "solver_state \<Rightarrow> solver_state" where
  "solverClickChild st2 = st2\<lparr>seq := butlast (seq st2) @ [\<lparr>click = True\<rparr>]\<rparr>"

inductive solver_call :: "(nat \<Rightarrow> int) \<Rightarrow> int \<Rightarrow> int \<times> solver_state \<Rightarrow> int \<times> solver_state \<Rightarrow> bool"
  for now :: "nat \<Rightarrow> int" and start :: int where
  solver_here: "solver_call now start c c"
| solver_into_no_click:
    "solver_enters now start frame st \<Longrightarrow>
     solver_call now start (frame + 1, solverNoClickChild st) c \<Longrightarrow>
     solver_call now start (frame, st) c"
| solver_into_click:
    "solver_enters now start frame st \<Longrightarrow>
     solver_dfs now start (frame + 1) (solverNoClickChild st) = (False, st2) \<Longrightarrow>
     solver_call now start (frame + 1, solverClickChild st2) c \<Longrightarrow>
     solver_call now start (frame, st) c"

section \<open>Test clocks and start states\<close>

text \<open>
  A clock that has passed every timeout from its fourth reading on, and the states in
  which the two depth-first solvers start on the runner and without an engine.
\<close>

definition lateClock :: "nat \<Rightarrow> int" where
  "lateClock k = (if k < 3 then 0 else 50000)"

definition runnerSearch :: "runner search_state" where
  "runnerSearch = \<lparr>clockReads = 1, pl = runnerStart, current = [], bestSequence = []\<rparr>"

definition solverStart :: solver_state where
  "solverStart = \<lparr>clockReads = 1, seq = [], foundSequence = []\<rparr>"

chapter \<open>Properties\<close>

section \<open>Decimal formatting\<close>

lemma of_char_digit_char: "d < 10 \<Longrightarrow> (of_char (digit_char d) :: nat) = 48 + d"
  by (simp add: digit_char_def)

lemma digit_val_digit_char: "d < 10 \<Longrightarrow> digit_val (digit_char d) = d"
  by (simp add: digit_val_def of_char_digit_char)

lemma digits_range:
  "c \<in> set (digits n) \<Longrightarrow> 48 \<le> (of_char c :: nat) \<and> (of_char c :: nat) \<le> 57"
proof (induction n rule: digits.induct)
  case (1 n)
  show ?case
  proof (cases "n < 10")
    case True
    with "1.prems" have "c = digit_char n" by (simp add: digits.simps)
    with True show ?thesis by (simp add: of_char_digit_char)
  next
    case False
    with "1.prems" have "c \<in> set (digits (n div 10)) \<or> c = digit_char (n mod 10)"
      by (subst (asm) digits.simps) auto
    then show ?thesis
    proof
      assume "c \<in> set (digits (n div 10))"
      with False "1.IH" show ?thesis by simp
    next
      assume "c = digit_char (n mod 10)"
      then show ?thesis by (simp add: of_char_digit_char)
    qed
  qed
qed

lemma digits_not_Nil: "digits n \<noteq> []"
  by (subst digits.simps) simp

lemma parse_nat_snoc: "parse_nat (s @ [c]) = parse_nat s * 10 + digit_val c"
  by (simp add: parse_nat_def)

lemma parse_nat_digits: "parse_nat (digits n) = n"
proof (induction n rule: digits.induct)
  case (1 n)
  show ?case
  proof (cases "n < 10")
    case True
    then show ?thesis by (simp add: digits.simps parse_nat_def digit_val_digit_char)
  next
    case False
    with "1.IH" have "parse_nat (digits (n div 10)) = n div 10" by simp
    with False show ?thesis
      by (subst digits.simps) (simp add: parse_nat_snoc digit_val_digit_char)
  qed
qed

lemma digits_inj: "digits a = digits b \<Longrightarrow> a = b"
  by (metis parse_nat_digits)

lemma hd_digits_range: "48 \<le> (of_char (hd (digits n)) :: nat)"
  using digits_range [of "hd (digits n)" n] digits_not_Nil [of n] by simp

lemma digits_no_minus: "digits m \<noteq> CHR ''-'' # s"
proof
  assume "digits m = CHR ''-'' # s"
  then have "hd (digits m) = CHR ''-''" by simp
  with hd_digits_range [of m] show False by simp
qed

lemma format_int_inj: "format_int a = format_int b \<Longrightarrow> a = b"
proof -
  assume eq: "format_int a = format_int b"
  show "a = b"
  proof (cases "a < 0")
    case a: True
    show ?thesis
    proof (cases "b < 0")
      case True
      with a eq have "digits (nat (- a)) = digits (nat (- b))" by (simp add: format_int_def)
      then have "nat (- a) = nat (- b)" by (rule digits_inj)
      with a True show ?thesis by simp
    next
      case False
      with a eq have "digits (nat b) = CHR ''-'' # digits (nat (- a))"
        by (simp add: format_int_def)
      with digits_no_minus show ?thesis by blast
    qed
  next
    case a: False
    show ?thesis
    proof (cases "b < 0")
      case True
      with a eq have "digits (nat a) = CHR ''-'' # digits (nat (- b))"
        by (simp add: format_int_def)
      with digits_no_minus show ?thesis by blast
    next
      case False
      with a eq have "digits (nat a) = digits (nat b)" by (simp add: format_int_def)
      then have "nat a = nat b" by (rule digits_inj)
      with a False show ?thesis by simp
    qed
  qed
qed

lemma format_int_no_underscore: "CHR ''_'' \<notin> set (format_int i)"
proof
  assume "CHR ''_'' \<in> set (format_int i)"
  then have "CHR ''_'' \<in> set (digits (nat (- i))) \<or> CHR ''_'' \<in> set (digits (nat i))"
    by (auto simp: format_int_def split: if_splits)
  then show False using digits_range [of "CHR ''_''"] by auto
qed

section \<open>The export file name\<close>

lemma alnum_codes:
  "\<forall>n \<in> set ([48..<58] @ [65..<91] @ [97..<123]). char_of (n::nat) \<in> identifier_alphabet"
  unfolding identifier_alphabet_def by code_simp

lemma isalnum_alphabet: "isalnum c \<Longrightarrow> c \<in> identifier_alphabet"
proof -
  assume "isalnum c"
  then have "(of_char c :: nat) \<in> {48..<58} \<union> {65..<91} \<union> {97..<123}"
    by (auto simp: isalnum_def Let_def)
  then have "(of_char c :: nat) \<in> set ([48..<58] @ [65..<91] @ [97..<123])"
    by (simp only: set_append set_upt Un_assoc)
  with alnum_codes have "char_of (of_char c :: nat) \<in> identifier_alphabet" by blast
  then show ?thesis by simp
qed

lemma sanitize_alphabet: "set (sanitize s) \<subseteq> identifier_alphabet"
  by (auto simp: sanitize_def isalnum_alphabet) (simp add: identifier_alphabet_def)

lemma sep_unique:
  assumes "a @ CHR ''_'' # x = b @ CHR ''_'' # y"
    and "CHR ''_'' \<notin> set x" and "CHR ''_'' \<notin> set y"
  shows "a = b \<and> x = y"
proof -
  from assms(1) have "rev x @ CHR ''_'' # rev a = rev y @ CHR ''_'' # rev b"
    by (metis rev_append rev.simps(2) append_assoc append_Cons append_Nil)
  then have "takeWhile (\<lambda>c. c \<noteq> CHR ''_'') (rev x @ CHR ''_'' # rev a)
      = takeWhile (\<lambda>c. c \<noteq> CHR ''_'') (rev y @ CHR ''_'' # rev b)" by simp
  moreover have "takeWhile (\<lambda>c. c \<noteq> CHR ''_'') (rev x @ CHR ''_'' # rev a) = rev x"
    using assms(2) by (auto simp: takeWhile_tail)
  moreover have "takeWhile (\<lambda>c. c \<noteq> CHR ''_'') (rev y @ CHR ''_'' # rev b) = rev y"
    using assms(3) by (auto simp: takeWhile_tail)
  ultimately have "x = y" by simp
  with assms(1) show ?thesis by simp
qed

lemma int_cast_id: "- (2 ^ 31) \<le> t \<Longrightarrow> t < 2 ^ 31 \<Longrightarrow> int_cast t = t"
  by (simp add: int_cast_def)

lemma stem_timestamp_unique:
  assumes "p @ ''_'' @ format_int i @ ext = q @ ''_'' @ format_int j @ ext"
  shows "i = j"
proof -
  from assms have "p @ CHR ''_'' # format_int i = q @ CHR ''_'' # format_int j" by simp
  then have "format_int i = format_int j"
    using sep_unique format_int_no_underscore by blast
  then show ?thesis by (rule format_int_inj)
qed

lemma exportFileName_timestamp:
  assumes "pre @ exportFileName ext l1 t1 = pre' @ exportFileName ext l2 t2"
  shows "int_cast t1 = int_cast t2"
proof -
  from assms have
    "(pre @ sanitize (levelName l1)) @ ''_'' @ format_int (int_cast t1) @ ext =
     (pre' @ sanitize (levelName l2)) @ ''_'' @ format_int (int_cast t2) @ ext"
    by (simp add: exportFileName_def)
  then show ?thesis by (rule stem_timestamp_unique)
qed

lemma digit_char_simps:
  "digit_char 0 = CHR ''0''" "digit_char 1 = CHR ''1''" "digit_char 2 = CHR ''2''"
  "digit_char 3 = CHR ''3''" "digit_char 4 = CHR ''4''" "digit_char 5 = CHR ''5''"
  "digit_char 6 = CHR ''6''" "digit_char 7 = CHR ''7''" "digit_char 8 = CHR ''8''"
  "digit_char 9 = CHR ''9''" "digit_char (Suc 0) = CHR ''1''"
  by code_simp+

lemma format_int_sample: "format_int 1762128000 = ''1762128000''"
  by (simp add: format_int_def digits.simps digit_char_simps)
lemma sanitize_sample: "sanitize ''My Level'' = ''My_Level''" by code_simp

lemma int_cast_wraps: "int_cast 5294967296 = 1000000000" "int_cast 1000000000 = 1000000000"
  by (simp_all add: int_cast_def)

text \<open>
  Claim C8, as stated, fails: the file name carries \<^verbatim>\<open>(int)t\<close>, the low 32 bits of the
  timestamp, so two exports of one level at seconds \<open>2 ^ 32\<close> apart get the same name.
\<close>

theorem C8_export_name_collision:
  "(1000000000 :: int) \<noteq> 5294967296 \<and>
   onExportClicked ''0,5'' (Some ''My Level'') 1000000000 =
     onExportClicked ''0,5'' (Some ''My Level'') 5294967296 \<and>
   onExportClicked_gdr ''0,5'' (Some ''My Level'') 1000000000 =
     onExportClicked_gdr ''0,5'' (Some ''My Level'') 5294967296 \<and>
   solverFinishedFileName ''mods'' (Some ''My Level'') 1000000000 =
     solverFinishedFileName ''mods'' (Some ''My Level'') 5294967296"
  unfolding onExportClicked_def onExportClicked_gdr_def solverFinishedFileName_def
      exportFileName_def int_cast_wraps by simp

text \<open>
  Claim C8, amended. Every export names its file by the level name in which each
  character that is not alphanumeric is replaced by an underscore (so the stem is over
  \<^verbatim>\<open>[A-Za-z0-9_]\<close> and as long as the level name), an underscore, the decimal rendering
  of the epoch seconds converted to \<^verbatim>\<open>int\<close>, and a fixed extension. Two exports at
  distinct seconds that both fit a signed 32-bit \<^verbatim>\<open>int\<close> never get the same name,
  whatever the two level names and folders are.
\<close>

theorem C8_export_name_shape:
  assumes "- (2 ^ 31) \<le> ta" and "ta < 2 ^ 31" and "- (2 ^ 31) \<le> tb" and "tb < 2 ^ 31"
    and "ta \<noteq> tb" and "replay \<noteq> []"
  shows "set (sanitize (levelName la)) \<subseteq> identifier_alphabet
    \<and> length (sanitize (levelName la)) = length (levelName la)
    \<and> onExportClicked replay la ta =
        Some (sanitize (levelName la) @ ''_'' @ format_int ta @ ''.macro.txt'', replay)
    \<and> onExportClicked_gdr replay la ta =
        Some (sanitize (levelName la) @ ''_'' @ format_int ta @ ''.gdr'', replay)
    \<and> solverFinishedFileName dir la ta =
        dir @ ''/'' @ sanitize (levelName la) @ ''_'' @ format_int ta @ ''.gdr''
    \<and> onExportClicked replay la ta \<noteq> onExportClicked replay' lb tb
    \<and> onExportClicked_gdr replay la ta \<noteq> onExportClicked_gdr replay' lb tb
    \<and> solverFinishedFileName dir la ta \<noteq> solverFinishedFileName dir' lb tb"
proof -
  have c1: "int_cast ta = ta" and c2: "int_cast tb = tb"
    using assms(1-4) by (simp_all add: int_cast_id)
  have ne: "pre @ exportFileName ext la ta \<noteq> pre' @ exportFileName ext lb tb" for pre pre' ext
    using exportFileName_timestamp [of pre ext la ta pre' lb tb] c1 c2 assms(5) by auto
  have n1: "onExportClicked replay la ta \<noteq> onExportClicked replay' lb tb"
    using ne [of "[]" "''.macro.txt''" "[]"] assms(6)
    by (auto simp: onExportClicked_def split: if_splits)
  have n2: "onExportClicked_gdr replay la ta \<noteq> onExportClicked_gdr replay' lb tb"
    using ne [of "[]" "''.gdr''" "[]"] assms(6)
    by (auto simp: onExportClicked_gdr_def split: if_splits)
  have n3: "solverFinishedFileName dir la ta \<noteq> solverFinishedFileName dir' lb tb"
    using ne [of "dir @ ''/''" "''.gdr''" "dir' @ ''/''"]
    by (simp add: solverFinishedFileName_def)
  have s1: "length (sanitize (levelName la)) = length (levelName la)"
    by (simp add: sanitize_def)
  have e1: "onExportClicked replay la ta =
        Some (sanitize (levelName la) @ ''_'' @ format_int ta @ ''.macro.txt'', replay)"
    using assms(6) by (simp add: onExportClicked_def exportFileName_def c1)
  have e2: "onExportClicked_gdr replay la ta =
        Some (sanitize (levelName la) @ ''_'' @ format_int ta @ ''.gdr'', replay)"
    using assms(6) by (simp add: onExportClicked_gdr_def exportFileName_def c1)
  have e3: "solverFinishedFileName dir la ta =
        dir @ ''/'' @ sanitize (levelName la) @ ''_'' @ format_int ta @ ''.gdr''"
    by (simp add: solverFinishedFileName_def exportFileName_def c1)
  from sanitize_alphabet [of "levelName la"] s1 e1 e2 e3 n1 n2 n3
  show ?thesis by blast
qed

theorem C8_export_name_shape_witness:
  "onExportClicked ''0,5'' (Some ''My Level'') 1762128000 =
     Some (''My_Level_1762128000.macro.txt'', ''0,5'')
   \<and> onExportClicked ''0,5'' (Some ''My Level'') 1762128000 \<noteq>
       onExportClicked ''0,5'' (Some ''My Level'') 1762128001"
proof -
  have r: "''0,5'' \<noteq> ([] :: string)" by simp
  have b: "- (2 ^ 31) \<le> (1762128000 :: int)" "(1762128000 :: int) < 2 ^ 31"
    "- (2 ^ 31) \<le> (1762128001 :: int)" "(1762128001 :: int) < 2 ^ 31"
    "(1762128000 :: int) \<noteq> 1762128001" by simp_all
  note th = C8_export_name_shape [OF b r, where la = "Some ''My Level''" and lb = "Some ''My Level''" and replay' = "''0,5''"]
  have l: "levelName (Some ''My Level'') = ''My Level''" by (simp add: levelName_def)
  note a0 = th [THEN conjunct2, THEN conjunct2, THEN conjunct1]
  have a: "onExportClicked ''0,5'' (Some ''My Level'') 1762128000 =
     Some (''My_Level_1762128000.macro.txt'', ''0,5'')"
    using a0 unfolding l format_int_sample sanitize_sample by simp
  note n = th [THEN conjunct2, THEN conjunct2, THEN conjunct2, THEN conjunct2,
      THEN conjunct2, THEN conjunct1]
  show ?thesis by (rule conjI [OF a n])
qed

section \<open>The replay encoder\<close>

lemma outStr_loop_Suc:
  "outStr_loop (Suc i) cs out = out @ concat (map (\<lambda>c. CHR '','' # format_int c) cs)"
  by (induction cs arbitrary: i out) simp_all

lemma macroText_Nil: "macroText [] = []"
  by (simp add: macroText_def)

lemma macroText_Cons:
  "macroText (c # cs) = format_int c @ concat (map (\<lambda>c. CHR '','' # format_int c) cs)"
  by (simp add: macroText_def outStr_loop_Suc)

lemma format_int_no_comma: "CHR '','' \<notin> set (format_int i)"
proof
  assume "CHR '','' \<in> set (format_int i)"
  then have "CHR '','' \<in> set (digits (nat (- i))) \<or> CHR '','' \<in> set (digits (nat i))"
    by (auto simp: format_int_def split: if_splits)
  then show False using digits_range [of "CHR '',''"] by auto
qed

lemma format_int_not_Nil: "format_int i \<noteq> []"
  by (simp add: format_int_def digits_not_Nil)

lemma csv_fields_plain: "CHR '','' \<notin> set a \<Longrightarrow> csv_fields cur a = [cur @ a]"
  by (induction a arbitrary: cur) auto

lemma csv_fields_comma:
  "CHR '','' \<notin> set a \<Longrightarrow> csv_fields cur (a @ CHR '','' # r) = (cur @ a) # csv_fields [] r"
  by (induction a arbitrary: cur) auto

lemma csv_fields_macroText: "csv_fields [] (macroText (c # cs)) = map format_int (c # cs)"
proof (induction cs arbitrary: c)
  case Nil
  then show ?case by (simp add: macroText_Cons csv_fields_plain format_int_no_comma)
next
  case (Cons d ds)
  have "macroText (c # d # ds) = format_int c @ CHR '','' # macroText (d # ds)"
    by (simp add: macroText_Cons)
  then show ?case
    using Cons.IH [of d] by (simp add: csv_fields_comma format_int_no_comma)
qed

lemma macroText_eq_Nil: "macroText cs = [] \<longleftrightarrow> cs = []"
  by (cases cs) (simp_all add: macroText_Nil macroText_Cons format_int_not_Nil)

lemma parse_format_int: "0 \<le> i \<Longrightarrow> int (parse_nat (format_int i)) = i"
  by (simp add: format_int_def parse_nat_digits)

lemma clickFrames_ge: "c \<in> set (clickFrames i xs) \<Longrightarrow> i \<le> c"
  by (induction xs arbitrary: i) (force split: if_splits)+

lemma clickFrames_Nil_iff: "clickFrames i xs = [] \<longleftrightarrow> stripTrailing xs = []"
  by (induction xs arbitrary: i) auto

lemma unclicks_step:
  assumes "cs \<noteq> []" and "\<forall>c \<in> set cs. i + 1 \<le> c"
  shows "unclicks i cs = \<lparr>click = False\<rparr> # unclicks (i + 1) cs"
proof (cases cs)
  case Nil
  with assms show ?thesis by simp
next
  case (Cons c cs')
  with assms have "i + 1 \<le> c" by simp
  then have "nat (c - i) = Suc (nat (c - (i + 1)))" by simp
  with Cons show ?thesis by simp
qed

lemma unclicks_clickFrames: "unclicks i (clickFrames i xs) = stripTrailing xs"
proof (induction xs arbitrary: i)
  case Nil
  then show ?case by simp
next
  case (Cons x xs)
  show ?case
  proof (cases "click x")
    case True
    then have "x = \<lparr>click = True\<rparr>" by (cases x) simp
    with True Cons.IH [of "i + 1"] show ?thesis by simp
  next
    case False
    then have x: "x = \<lparr>click = False\<rparr>" by (cases x) simp
    show ?thesis
    proof (cases "clickFrames (i + 1) xs = []")
      case True
      moreover from True have "stripTrailing xs = []"
        using clickFrames_Nil_iff [of "i + 1" xs] by simp
      ultimately show ?thesis using False by simp
    next
      case ne: False
      have "unclicks i (clickFrames (i + 1) xs) = \<lparr>click = False\<rparr> # unclicks (i + 1) (clickFrames (i + 1) xs)"
        using ne clickFrames_ge [of _ "i + 1" xs] by (intro unclicks_step) auto
      with False x ne Cons.IH [of "i + 1"] show ?thesis
        by (simp add: clickFrames_Nil_iff [of "i + 1"])
    qed
  qed
qed

lemma decode_encode: "decode (encode sq) = stripTrailing sq"
proof (cases "recordClicks sq")
  case Nil
  then show ?thesis
    using clickFrames_Nil_iff [of 0 sq]
    by (simp add: decode_def encode_def macroText_Nil recordClicks_def)
next
  case (Cons c cs)
  have nn: "\<forall>d \<in> set (c # cs). 0 \<le> d"
    using clickFrames_ge [of _ 0 sq] Cons by (auto simp: recordClicks_def)
  have "map (\<lambda>f. int (parse_nat f)) (csv_fields [] (macroText (c # cs))) = c # cs"
    unfolding csv_fields_macroText map_map
    by (rule map_idI) (use nn in \<open>auto simp: parse_format_int\<close>)
  moreover have "macroText (c # cs) \<noteq> []" by (simp add: macroText_eq_Nil)
  ultimately have "decode (encode sq) = unclicks 0 (recordClicks sq)"
    using Cons by (simp add: decode_def encode_def)
  then show ?thesis by (simp add: recordClicks_def unclicks_clickFrames)
qed

lemma clickFrames_stripTrailing: "clickFrames i (stripTrailing xs) = clickFrames i xs"
proof (induction xs arbitrary: i)
  case Nil
  then show ?case by simp
next
  case (Cons x xs)
  then show ?case using clickFrames_Nil_iff [of "i + 1" xs] by auto
qed

lemma encode_stripTrailing: "encode (stripTrailing sq) = encode sq"
  by (simp add: encode_def recordClicks_def clickFrames_stripTrailing)

lemma stripTrailing_idem: "stripTrailing (stripTrailing xs) = stripTrailing xs"
  by (induction xs) auto

text \<open>
  Claim C3, as stated, fails: the text lists the engaged frame indices only, so the
  length of the sequence is lost and two sequences that differ in trailing frames
  without engagement have one encoding.
\<close>

theorem C3_encoder_not_injective:
  "[\<lparr>click = True\<rparr>] \<noteq> [\<lparr>click = True\<rparr>, \<lparr>click = False\<rparr>] \<and>
   encode [\<lparr>click = True\<rparr>] = encode [\<lparr>click = True\<rparr>, \<lparr>click = False\<rparr>]"
  by (simp add: encode_def recordClicks_def macroText_def)

text \<open>
  Claim C3, amended. The encoder is injective up to trailing frames that do not engage:
  two decision sequences have the same encoding exactly when they agree after these
  frames are removed, which is exactly when they engage at the same frame indices; and
  decoding the encoding of a sequence gives the sequence without these frames.
\<close>

theorem C3_encoder_round_trip:
  "decode (encode sq) = stripTrailing sq
   \<and> (encode seqa = encode seqb \<longleftrightarrow> stripTrailing seqa = stripTrailing seqb)
   \<and> (encode seqa = encode seqb \<longleftrightarrow> recordClicks seqa = recordClicks seqb)"
proof -
  have a: "encode seqa = encode seqb \<longleftrightarrow> stripTrailing seqa = stripTrailing seqb"
    by (metis decode_encode encode_stripTrailing)
  have b: "stripTrailing seqa = stripTrailing seqb \<longleftrightarrow> recordClicks seqa = recordClicks seqb"
    unfolding recordClicks_def
    by (metis clickFrames_stripTrailing unclicks_clickFrames)
  from a b decode_encode show ?thesis by blast
qed

section \<open>The pure-compute solver\<close>

lemma solver_dfs_timeout:
  "now (clockReads st) - start > SOLVER_TIMEOUT_MS \<Longrightarrow>
   solver_dfs now start frame st = (False, st\<lparr>clockReads := Suc (clockReads st)\<rparr>)"
  by (subst solver_dfs.simps) (simp add: Let_def)

lemma solver_dfs_descends:
  assumes "n = nat (501 - frame)" and "0 \<le> frame" and "frame \<le> 501"
    and "\<And>k. clockReads st \<le> k \<Longrightarrow> k < clockReads st + Suc n \<Longrightarrow> now k - start \<le> SOLVER_TIMEOUT_MS"
  shows "solver_dfs now start frame st =
    (True, st\<lparr>clockReads := clockReads st + Suc n,
         seq := seq st @ replicate n \<lparr>click = False\<rparr>,
         foundSequence := seq st @ replicate n \<lparr>click = False\<rparr>\<rparr>)"
  using assms
proof (induction n arbitrary: frame st)
  case 0
  then have f: "frame = 501" by simp
  have t: "\<not> now (clockReads st) - start > SOLVER_TIMEOUT_MS"
    using "0.prems"(4) [of "clockReads st"] by simp
  show ?case
    by (subst solver_dfs.simps)
      (simp add: Let_def t f MAX_SEARCH_FRAMES_def SUCCESS_X_THRESHOLD_def)
next
  case (Suc n)
  then have f: "frame < 501" "0 \<le> frame" by simp_all
  have t: "\<not> now (clockReads st) - start > SOLVER_TIMEOUT_MS"
    using Suc.prems(4) [of "clockReads st"] by simp
  let ?st2 = "st\<lparr>clockReads := Suc (clockReads st), seq := seq st @ [\<lparr>click = False\<rparr>]\<rparr>"
  have ih: "solver_dfs now start (frame + 1) ?st2 =
    (True, ?st2\<lparr>clockReads := clockReads ?st2 + Suc n,
         seq := seq ?st2 @ replicate n \<lparr>click = False\<rparr>,
         foundSequence := seq ?st2 @ replicate n \<lparr>click = False\<rparr>\<rparr>)"
  proof (rule Suc.IH)
    show "n = nat (501 - (frame + 1))" using Suc.prems(1) by simp
    show "0 \<le> frame + 1" using f by simp
    show "frame + 1 \<le> 501" using f by simp
    fix k assume "clockReads ?st2 \<le> k" "k < clockReads ?st2 + Suc n"
    then show "now k - start \<le> SOLVER_TIMEOUT_MS"
      using Suc.prems(4) [of k] by simp
  qed
  have g: "\<not> frame \<ge> MAX_SEARCH_FRAMES" "\<not> (frame > 0 \<and> frame * 10 > SUCCESS_X_THRESHOLD)"
    using f by (simp_all add: MAX_SEARCH_FRAMES_def SUCCESS_X_THRESHOLD_def)
  show ?case
    by (subst solver_dfs.simps) (simp add: Let_def t g ih replicate_app_Cons_same)
qed

lemma solver_dfs_found:
  assumes "\<And>k. 1 \<le> k \<Longrightarrow> k \<le> 502 \<Longrightarrow> now k - now 0 \<le> SOLVER_TIMEOUT_MS"
  shows "solver_dfs now (now 0) 0 \<lparr>clockReads = 1, seq = [], foundSequence = []\<rparr> =
    (True, \<lparr>clockReads = 503, seq = replicate 501 \<lparr>click = False\<rparr>,
       foundSequence = replicate 501 \<lparr>click = False\<rparr>\<rparr>)"
proof -
  have "solver_dfs now (now 0) 0 \<lparr>clockReads = 1, seq = [], foundSequence = []\<rparr> =
    (True, \<lparr>clockReads = 1, seq = [], foundSequence = []\<rparr>
       \<lparr>clockReads := clockReads \<lparr>clockReads = 1, seq = [], foundSequence = []\<rparr> + Suc 501,
         seq := seq \<lparr>clockReads = 1, seq = [], foundSequence = []\<rparr> @ replicate 501 \<lparr>click = False\<rparr>,
         foundSequence := seq \<lparr>clockReads = 1, seq = [], foundSequence = []\<rparr> @ replicate 501 \<lparr>click = False\<rparr>\<rparr>)"
    by (rule solver_dfs_descends) (use assms in simp_all)
  then show ?thesis by simp
qed

lemma solver_dfs_ticking_clock:
  "solver_dfs (\<lambda>k. int k) 0 0 \<lparr>clockReads = 1, seq = [], foundSequence = []\<rparr> =
    (True, \<lparr>clockReads = 503, seq = replicate 501 \<lparr>click = False\<rparr>,
       foundSequence = replicate 501 \<lparr>click = False\<rparr>\<rparr>)"
  using solver_dfs_found [of "\<lambda>k. int k"] by (simp add: SOLVER_TIMEOUT_MS_def)

lemma solverCallback_faults: "solverCallback r = Inl UseAfterReturn"
proof (cases r)
  case (Inl e)
  then show ?thesis by (cases e) (simp add: solverCallback_def)
next
  case (Inr v)
  then show ?thesis
    by (cases v) (simp add: solverCallback_def through_reference_def)
qed

text \<open>
  Claim C9 on the code. With a clock that advances one millisecond per reading, the
  search of the solver thread does end with the sequence of 501 frames without a click
  in \<^verbatim>\<open>seq\<close>, whatever the copied player position. The result does not reach
  \<^verbatim>\<open>onSolverFinished\<close>: it is assigned and read through references to locals of
  \<^verbatim>\<open>onRequestMacro\<close>. If that function has returned when the thread assigns, the
  assignment is the fault; if not, the read in the callback is, which always comes
  after the return.
\<close>

theorem C9_result_through_dangling_references:
  "solver_dfs (\<lambda>k. int k) 0 0 \<lparr>clockReads = 1, seq = [], foundSequence = []\<rparr> =
     (True, \<lparr>clockReads = 503, seq = replicate 501 \<lparr>click = False\<rparr>,
        foundSequence = replicate 501 \<lparr>click = False\<rparr>\<rparr>)
   \<and> solverThread (\<lambda>k. int k) \<lparr>playerX = 0, playerY = 105\<rparr> Running =
       Inr (True, replicate 501 \<lparr>click = False\<rparr>)
   \<and> solverThread (\<lambda>k. int k) \<lparr>playerX = 0, playerY = 105\<rparr> Returned = Inl UseAfterReturn
   \<and> onRequestMacro (\<lambda>k. int k) \<lparr>playerX = 0, playerY = 105\<rparr> Running = Inl UseAfterReturn
   \<and> onRequestMacro (\<lambda>k. int k) \<lparr>playerX = 0, playerY = 105\<rparr> Returned = Inl UseAfterReturn"
  using solver_dfs_ticking_clock
  by (simp add: solverThread_def through_reference_def onRequestMacro_def solverCallback_faults)

section \<open>The engine-driven depth-first solver\<close>

lemma dfs_unfold_enters:
  "dfs_enters E now startTime frame w \<Longrightarrow>
   dfs E now startTime frame w =
     (case dfs E now startTime (frame + 1) (noClickChild E w) of
        (ok, w2) \<Rightarrow>
          if ok then (True, w2)
          else (case dfs E now startTime (frame + 1) (clickChild E w2) of
                  (ok', w4) \<Rightarrow> if ok' then (True, w4) else (False, afterClick E w4)))"
  by (subst dfs.simps)
    (auto simp: dfs_enters_def Let_def noClickChild_def clickChild_def afterClick_def
      split: prod.splits)

lemma dfs_unfold_succeeds:
  "dfs_succeeds E now startTime frame w \<Longrightarrow>
   dfs E now startTime frame w =
     (True, w\<lparr>clockReads := Suc (clockReads w), bestSequence := current w\<rparr>)"
  by (subst dfs.simps) (simp add: dfs_succeeds_def Let_def)

lemma dfs_unfold_stops:
  "\<not> dfs_enters E now startTime frame w \<Longrightarrow> \<not> dfs_succeeds E now startTime frame w \<Longrightarrow>
   dfs E now startTime frame w = (False, w\<lparr>clockReads := Suc (clockReads w)\<rparr>)"
  by (subst dfs.simps) (auto simp: dfs_enters_def dfs_succeeds_def Let_def)

lemma dfs_timeout:
  "now (clockReads w) - startTime > TIMEOUT_MS \<Longrightarrow>
   dfs E now startTime frame w = (False, w\<lparr>clockReads := Suc (clockReads w)\<rparr>)"
  by (rule dfs_unfold_stops) (simp_all add: dfs_enters_def dfs_succeeds_def)

lemma dfs_False_current:
  "dfs E now startTime frame w = (False, w') \<Longrightarrow> current w' = current w"
proof (induction "nat (MAX_SEARCH_FRAMES - frame)" arbitrary: frame w w' rule: less_induct)
  case less
  show ?case
  proof (cases "dfs_enters E now startTime frame w")
    case False
    then show ?thesis
      using less.prems dfs_unfold_succeeds [of E now startTime frame w]
        dfs_unfold_stops [of E now startTime frame w]
      by (cases "dfs_succeeds E now startTime frame w") auto
  next
    case True
    then have lt: "nat (MAX_SEARCH_FRAMES - (frame + 1)) < nat (MAX_SEARCH_FRAMES - frame)"
      by (simp add: dfs_enters_def)
    obtain ok1 w2 where r1: "dfs E now startTime (frame + 1) (noClickChild E w) = (ok1, w2)"
      by (cases "dfs E now startTime (frame + 1) (noClickChild E w)")
    obtain ok2 w4 where r2: "dfs E now startTime (frame + 1) (clickChild E w2) = (ok2, w4)"
      by (cases "dfs E now startTime (frame + 1) (clickChild E w2)")
    from less.prems True r1 r2 have n1: "\<not> ok1" and n2: "\<not> ok2" and w': "w' = afterClick E w4"
      by (auto simp: dfs_unfold_enters split: if_splits)
    from less.hyps [OF lt] r1 n1 have c2: "current w2 = current (noClickChild E w)" by simp
    from less.hyps [OF lt] r2 n2 have c4: "current w4 = current (clickChild E w2)" by simp
    show ?thesis
      by (simp add: w' afterClick_def c4 clickChild_def)
        (simp add: c2 noClickChild_def)
  qed
qed

lemma dfs_True_length:
  "dfs E now startTime frame w = (True, w') \<Longrightarrow> 0 \<le> frame \<Longrightarrow> length (current w) = nat frame \<Longrightarrow>
   bestSequence w' = current w' \<and> length (current w') < nat MAX_SEARCH_FRAMES"
proof (induction "nat (MAX_SEARCH_FRAMES - frame)" arbitrary: frame w w' rule: less_induct)
  case less
  show ?case
  proof (cases "dfs_enters E now startTime frame w")
    case False
    then have s: "dfs_succeeds E now startTime frame w"
      using less.prems(1) dfs_unfold_stops [of E now startTime frame w] by auto
    then have "w' = w\<lparr>clockReads := Suc (clockReads w), bestSequence := current w\<rparr>"
      using less.prems(1) by (simp add: dfs_unfold_succeeds)
    moreover from s have "frame < MAX_SEARCH_FRAMES" by (simp add: dfs_succeeds_def)
    ultimately show ?thesis using less.prems(2,3) by simp
  next
    case True
    then have lt: "nat (MAX_SEARCH_FRAMES - (frame + 1)) < nat (MAX_SEARCH_FRAMES - frame)"
      by (simp add: dfs_enters_def)
    obtain ok1 w2 where r1: "dfs E now startTime (frame + 1) (noClickChild E w) = (ok1, w2)"
      by (cases "dfs E now startTime (frame + 1) (noClickChild E w)")
    have l1: "length (current (noClickChild E w)) = nat (frame + 1)" and f1: "0 \<le> frame + 1"
      using less.prems(2,3) by (simp_all add: noClickChild_def)
    show ?thesis
    proof (cases ok1)
      case True
      with less.prems(1) \<open>dfs_enters E now startTime frame w\<close> r1 have "w' = w2"
        by (simp add: dfs_unfold_enters)
      with less.hyps [OF lt _ f1 l1] r1 True show ?thesis by simp
    next
      case False
      obtain ok2 w4 where r2: "dfs E now startTime (frame + 1) (clickChild E w2) = (ok2, w4)"
        by (cases "dfs E now startTime (frame + 1) (clickChild E w2)")
      from less.prems(1) \<open>dfs_enters E now startTime frame w\<close> r1 r2 False
      have ok2: "ok2" and w': "w' = w4"
        by (auto simp: dfs_unfold_enters split: if_splits)
      from r1 False have "dfs E now startTime (frame + 1) (noClickChild E w) = (False, w2)"
        by simp
      then have "current w2 = current (noClickChild E w)"
        by (rule dfs_False_current)
      then have l2: "length (current (clickChild E w2)) = nat (frame + 1)"
        using l1 by (simp add: clickChild_def noClickChild_def)
      from less.hyps [OF lt _ f1 l2] r2 ok2 w' show ?thesis by simp
    qed
  qed
qed

lemma dfs_call_invariant:
  "dfs_call E now startTime c c' \<Longrightarrow> 0 \<le> fst c \<Longrightarrow> fst c \<le> MAX_SEARCH_FRAMES \<Longrightarrow>
   length (current (snd c)) = nat (fst c) \<Longrightarrow>
   fst c \<le> fst c' \<and> fst c' \<le> MAX_SEARCH_FRAMES \<and> length (current (snd c')) = nat (fst c')"
proof (induction rule: dfs_call.induct)
  case (here c)
  then show ?case by simp
next
  case (into_no_click frame w c)
  from into_no_click.hyps(1) have "frame < MAX_SEARCH_FRAMES" by (simp add: dfs_enters_def)
  moreover from into_no_click.prems have "nat (frame + 1) = Suc (nat frame)" by simp
  ultimately show ?case
    using into_no_click.prems into_no_click.IH by (simp add: noClickChild_def)
next
  case (into_click frame w w2 c)
  from into_click.hyps(1) have "frame < MAX_SEARCH_FRAMES" by (simp add: dfs_enters_def)
  moreover from into_click.hyps(2) have "current w2 = current (noClickChild E w)"
    by (rule dfs_False_current)
  moreover from into_click.prems have "nat (frame + 1) = Suc (nat frame)" by simp
  ultimately show ?case
    using into_click.prems into_click.IH by (simp add: clickChild_def noClickChild_def)
qed


lemma dfs_call_frame_le: "dfs_call E now startTime c c' \<Longrightarrow> fst c \<le> fst c'"
  by (induction rule: dfs_call.induct) auto

lemma dfs_overrun:
  assumes call: "dfs_call E now startTime c c'"
    and expired: "\<And>k. clockReads (snd c') \<le> k \<Longrightarrow> now k - startTime > TIMEOUT_MS"
    and t1: "\<And>p. cost (update E p) = Suc (cost p)"
    and t2: "\<And>p. cost (pushButton E p) = cost p"
    and t3: "\<And>p. cost (restoreStateSnapshot E p) = cost p"
  shows "\<not> fst (dfs E now startTime (fst c) (snd c))
    \<and> clockReads (snd c') \<le> clockReads (snd (dfs E now startTime (fst c) (snd c)))
    \<and> cost (pl (snd (dfs E now startTime (fst c) (snd c)))) \<le> cost (pl (snd c')) + nat (fst c' - fst c)"
  using call expired
proof (induction rule: dfs_call.induct)
  case (here c)
  have "now (clockReads (snd c)) - startTime > TIMEOUT_MS" using here by simp
  then show ?case by (simp add: dfs_timeout)
next
  case (into_no_click frame w c)
  have le: "frame + 1 \<le> fst c" using into_no_click.hyps(2) dfs_call_frame_le by fastforce
  obtain ok1 w2 where r1: "dfs E now startTime (frame + 1) (noClickChild E w) = (ok1, w2)"
    by (cases "dfs E now startTime (frame + 1) (noClickChild E w)")
  from into_no_click.IH [OF into_no_click.prems] r1
  have n1: "\<not> ok1" and c2: "clockReads (snd c) \<le> clockReads w2"
    and k2: "cost (pl w2) \<le> cost (pl (snd c)) + nat (fst c - (frame + 1))"
    by simp_all
  have "now (clockReads (clickChild E w2)) - startTime > TIMEOUT_MS"
    using into_no_click.prems [of "clockReads w2"] c2 by (simp add: clickChild_def)
  then have r2: "dfs E now startTime (frame + 1) (clickChild E w2) =
      (False, (clickChild E w2)\<lparr>clockReads := Suc (clockReads (clickChild E w2))\<rparr>)"
    by (rule dfs_timeout)
  have res: "dfs E now startTime frame w =
      (False, afterClick E ((clickChild E w2)\<lparr>clockReads := Suc (clockReads (clickChild E w2))\<rparr>))"
    using into_no_click.hyps(1) r1 n1 r2 by (simp add: dfs_unfold_enters)
  have "nat (fst c - (frame + 1)) + 1 = nat (fst c - frame)" using le by simp
  then show ?case
    using c2 k2 by (simp add: res afterClick_def clickChild_def stepFrame_def t1 t2 t3)
next
  case (into_click frame w w2 c)
  have le: "frame + 1 \<le> fst c" using into_click.hyps(3) dfs_call_frame_le by fastforce
  obtain ok2 w4 where r2: "dfs E now startTime (frame + 1) (clickChild E w2) = (ok2, w4)"
    by (cases "dfs E now startTime (frame + 1) (clickChild E w2)")
  from into_click.IH [OF into_click.prems] r2
  have n2: "\<not> ok2" and c4: "clockReads (snd c) \<le> clockReads w4"
    and k4: "cost (pl w4) \<le> cost (pl (snd c)) + nat (fst c - (frame + 1))"
    by simp_all
  have res: "dfs E now startTime frame w = (False, afterClick E w4)"
    using into_click.hyps(1,2) r2 n2 by (simp add: dfs_unfold_enters)
  have "nat (fst c - (frame + 1)) \<le> nat (fst c - frame)" using le by simp
  then show ?case
    using c4 k4 by (simp add: res afterClick_def t3)
qed

lemma toy_run:
  "dfs_found (runSolverAndRecord toyEngine (\<lambda>k. 0) toyStart)
   \<and> best (runSolverAndRecord toyEngine (\<lambda>k. 0) toyStart) = [\<lparr>click = False\<rparr>, \<lparr>click = True\<rparr>]"
  by (simp add: runSolverAndRecord_def dfs.simps toyEngine_def toyStart_def Let_def stepFrame_def
      TIMEOUT_MS_def MAX_SEARCH_FRAMES_def)

lemma toy_replay:
  "getCurrentPercentInt toyEngine (playFrames toyEngine toyStart [\<lparr>click = False\<rparr>, \<lparr>click = True\<rparr>]) = 0"
  "getCurrentPercentInt toyEngine (playFrames toyEngine toyStart [\<lparr>click = True\<rparr>]) = 100"
  by (simp_all add: playFrames_def stepFrame_def toyEngine_def toyStart_def)

text \<open>
  Claim C2 on the engine-driven solver. The snapshot is taken once, before the search,
  so every \<^verbatim>\<open>restoreStateSnapshot\<close> returns the engine to the start of the search and
  not to the state before the frame. On the toy play layer the search without a
  timeout reports the sequence "no click, click" as found, which does not complete the
  level when it is played from the start, while the sequence "click" does.
\<close>

theorem C2_dfs_returns_non_solution:
  "dfs_found (runSolverAndRecord toyEngine (\<lambda>k. 0) toyStart)
   \<and> best (runSolverAndRecord toyEngine (\<lambda>k. 0) toyStart) = [\<lparr>click = False\<rparr>, \<lparr>click = True\<rparr>]
   \<and> getCurrentPercentInt toyEngine
        (playFrames toyEngine toyStart [\<lparr>click = False\<rparr>, \<lparr>click = True\<rparr>]) = 0
   \<and> getCurrentPercentInt toyEngine (playFrames toyEngine toyStart [\<lparr>click = True\<rparr>]) = 100"
  using toy_run toy_replay by simp

section \<open>The randomized trial solver\<close>

lemma drawClicks_scripted:
  "drawClicks scriptedRng (2 / 25) 60 2 =
     (\<lparr>click = False\<rparr> # \<lparr>click = True\<rparr> # replicate 58 \<lparr>click = False\<rparr>, 62)"
  by (simp add: scriptedRng_def eval_nat_numeral)

lemma drawSeq_scripted:
  "drawSeq scriptedRng 0 =
     (60, 2 / 25, \<lparr>click = False\<rparr> # \<lparr>click = True\<rparr> # replicate 58 \<lparr>click = False\<rparr>, 62)"
proof -
  have "uniform_int_distribution scriptedRng 60 (min MAX_SEARCH_FRAMES_rand 600) 0 = (60, 1)"
    by (simp add: scriptedRng_def)
  moreover have "uniform_real_distribution scriptedRng (1 / 100) (15 / 100) 1 = (2 / 25, 2)"
    by (simp add: scriptedRng_def)
  ultimately show ?thesis
    using drawClicks_scripted by (simp add: drawSeq_def)
qed


lemma clickFrames_replicate_False: "clickFrames i (replicate n \<lparr>click = False\<rparr>) = []"
  by (induction n arbitrary: i) simp_all

lemma playTrial_runner:
  "playTrial runnerEngine p (\<lparr>click = False\<rparr> # \<lparr>click = True\<rparr> # replicate 58 \<lparr>click = False\<rparr>) =
     (Succeeded, 0, \<lparr>ticks = 3, pos = 3, started = True\<rparr>)"
  by (simp add: playTrial_def stepFrame_def runnerEngine_def)

lemma format_int_small:
  "format_int 0 = ''0''" "format_int 60 = ''60''" "format_int 500 = ''500''"
  by (simp_all add: format_int_def digits.simps digit_char_simps)

lemma trialBody_runner:
  "trialBody runnerEngine scriptedRng 0
     \<lparr>clockReads = 3, pl = q, rng = 0, found = False, foundClicks = [], statusLabel = [''Solver starting...'']\<rparr> =
   \<lparr>clockReads = 3, pl = \<lparr>ticks = 3, pos = 3, started = True\<rparr>, rng = 62, found = True,
     foundClicks = [1], statusLabel = [''Solver starting...'', ''Trying... trial 0/500 (seq 60)'']\<rparr>"
  by (simp add: trialBody_def drawSeq_scripted playTrial_runner recordClicks_def
      clickFrames_replicate_False MAX_TRIALS_def format_int_small)

lemma trialLoop_runner:
  "trialLoop runnerEngine scriptedRng (\<lambda>k. 0) 35000 0
     \<lparr>clockReads = 2, pl = q, rng = 0, found = False, foundClicks = [], statusLabel = [''Solver starting...'']\<rparr> =
   \<lparr>clockReads = 4, pl = \<lparr>ticks = 3, pos = 3, started = True\<rparr>, rng = 62, found = True,
     foundClicks = [1], statusLabel = [''Solver starting...'', ''Trying... trial 0/500 (seq 60)'']\<rparr>"
  apply (subst trialLoop.simps)
  apply (simp add: MAX_TRIALS_def trialBody_runner)
  apply (subst trialLoop.simps)
  apply (simp add: MAX_TRIALS_def)
  done

lemma solverRun_runner:
  "solverRun runnerEngine scriptedRng (\<lambda>k. 0) 0 (Some runnerStart) \<lparr>lastReplayData = [], running = True\<rparr> =
   (Some \<lparr>clockReads = 4, pl = \<lparr>ticks = 3, pos = 3, started = True\<rparr>, rng = 62, found = True,
       foundClicks = [1],
       statusLabel = [''Solver starting...'', ''Trying... trial 0/500 (seq 60)'',
          ''Found a run! Preparing export...'', ''Ready to export (click Export).'']\<rparr>,
    \<lparr>lastReplayData = ''1'', running = False\<rparr>)"
proof -
  have t: "TIMEOUT_MS_rand = 35000" by (simp add: TIMEOUT_MS_rand_def)
  have m: "macroText [1] = ''1''"
    by (simp add: macroText_def format_int_def digits.simps digit_char_simps)
  show ?thesis
    by (simp add: solverRun_def Let_def t trialLoop_runner m)
qed


lemma length_drawClicks: "length (fst (drawClicks R clickProb n r)) = n"
proof (induction n arbitrary: r)
  case 0
  then show ?case by simp
next
  case (Suc n)
  obtain x r1 where x: "uniform_real_distribution R 0 1 r = (x, r1)"
    by (cases "uniform_real_distribution R 0 1 r")
  obtain rest r2 where r: "drawClicks R clickProb n r1 = (rest, r2)"
    by (cases "drawClicks R clickProb n r1")
  from Suc.IH [of r1] r have "length rest = n" by simp
  with x r show ?case by simp
qed

lemma min_frames_rand: "min MAX_SEARCH_FRAMES_rand 600 = 600"
  by (simp add: MAX_SEARCH_FRAMES_rand_def)

lemma drawSeq_parts:
  assumes "drawSeq R r = (seqLen, clickProb, sq, r')"
  shows "seqLen = fst (uniform_int_distribution R 60 600 r)"
    and "clickProb = fst (uniform_real_distribution R (1 / 100) (15 / 100)
            (snd (uniform_int_distribution R 60 600 r)))"
    and "length sq = nat seqLen"
proof -
  obtain a r1 where a: "uniform_int_distribution R 60 600 r = (a, r1)"
    by (cases "uniform_int_distribution R 60 600 r")
  obtain b r2 where b: "uniform_real_distribution R (1 / 100) (15 / 100) r1 = (b, r2)"
    by (cases "uniform_real_distribution R (1 / 100) (15 / 100) r1")
  obtain c r3 where c: "drawClicks R b (nat a) r2 = (c, r3)"
    by (cases "drawClicks R b (nat a) r2")
  from assms a b c have e: "seqLen = a" "clickProb = b" "sq = c"
    by (simp_all add: drawSeq_def min_frames_rand)
  show "seqLen = fst (uniform_int_distribution R 60 600 r)" using e a by simp
  show "clickProb = fst (uniform_real_distribution R (1 / 100) (15 / 100)
            (snd (uniform_int_distribution R 60 600 r)))" using e a b by simp
  show "length sq = nat seqLen" using e c length_drawClicks [of R b "nat a" r2] by simp
qed

lemma simulate_Succeeded_frame:
  "simulate E f0 xs p = (Succeeded, f, p') \<Longrightarrow> f0 \<le> f \<and> f < f0 + length xs"
proof (induction xs arbitrary: f0 p)
  case Nil
  then show ?case by simp
next
  case (Cons x xs)
  show ?case
  proof (cases "getCurrentPercentInt E (stepFrame E p x) \<ge> 100")
    case True
    with Cons.prems show ?thesis by (simp add: Let_def)
  next
    case False
    with Cons.prems have "simulate E (Suc f0) xs (stepFrame E p x) = (Succeeded, f, p')"
      by (simp add: Let_def split: if_splits)
    from Cons.IH [OF this] show ?thesis by simp
  qed
qed

lemma clickFrames_append:
  "clickFrames i (xs @ ys) = clickFrames i xs @ clickFrames (i + int (length xs)) ys"
  by (induction xs arbitrary: i) (simp_all add: add.assoc)

lemma clickFrames_lt: "c \<in> set (clickFrames i xs) \<Longrightarrow> c < i + int (length xs)"
  by (induction xs arbitrary: i) (force split: if_splits)+

lemma trialBody_found:
  assumes "drawSeq R (rng w) = (seqLen, clickProb, sq, r)"
    and "playTrial E (pl w) sq = (res, f, p)"
  shows "found (trialBody E R trial w) = (res = Succeeded \<or> found w)"
    and "foundClicks (trialBody E R trial w) = (if res = Succeeded then recordClicks sq else foundClicks w)"
    and "rng (trialBody E R trial w) = r"
    and "pl (trialBody E R trial w) = p"
    and "clockReads (trialBody E R trial w) = clockReads w"
  using assms by (simp_all add: trialBody_def Let_def)

lemma trialLoop_deadline:
  "trial < MAX_TRIALS \<Longrightarrow> deadline \<le> now (clockReads w) \<Longrightarrow>
   trialLoop E R now deadline trial w = w\<lparr>clockReads := Suc (clockReads w)\<rparr>"
  by (subst trialLoop.simps) (simp add: Let_def)

lemma trialLoop_found:
  assumes "found w \<Longrightarrow> Q (foundClicks w)"
    and "\<And>trial w. \<not> found w \<Longrightarrow> found (trialBody E R trial w) \<Longrightarrow>
           Q (foundClicks (trialBody E R trial w))"
    and "found (trialLoop E R now deadline trial w)"
  shows "Q (foundClicks (trialLoop E R now deadline trial w))"
  using assms
proof (induction E R now deadline trial w rule: trialLoop.induct)
  case (1 E R now deadline trial w)
  let ?adv = "w\<lparr>clockReads := Suc (clockReads w)\<rparr>"
  show ?case
  proof (cases "trial < MAX_TRIALS \<and> now (clockReads w) < deadline \<and> \<not> found w")
    case True
    then have u: "trialLoop E R now deadline trial w =
        trialLoop E R now deadline (trial + 1) (trialBody E R trial ?adv)"
      by (subst trialLoop.simps) (simp add: Let_def)
    have "Q (foundClicks (trialLoop E R now deadline (trial + 1) (trialBody E R trial ?adv)))"
    proof (rule "1.IH")
      show "trial < MAX_TRIALS" using True by simp
      show "now (clockReads w) = now (clockReads w)" by simp
      show "?adv = ?adv" by simp
      show "now (clockReads w) < deadline \<and> \<not> found ?adv" using True by simp
      show "Q (foundClicks (trialBody E R trial ?adv))" if "found (trialBody E R trial ?adv)"
        using "1.prems"(2) [of ?adv trial] that True by simp
      show "\<And>trial w. \<not> found w \<Longrightarrow> found (trialBody E R trial w) \<Longrightarrow>
           Q (foundClicks (trialBody E R trial w))" by (rule "1.prems"(2))
      show "found (trialLoop E R now deadline (trial + 1) (trialBody E R trial ?adv))"
        using "1.prems"(3) u by simp
    qed
    with u show ?thesis by simp
  next
    case False
    then have u: "trialLoop E R now deadline trial w = (if trial < MAX_TRIALS then ?adv else w)"
      by (subst trialLoop.simps) (auto simp: Let_def)
    with "1.prems"(1,3) show ?thesis by (auto split: if_splits)
  qed
qed


lemma playTrial_fresh:
  "resetLevelFromStart E p1 = resetLevelFromStart E p2 \<Longrightarrow> playTrial E p1 sq = playTrial E p2 sq"
  by (simp add: playTrial_def)

text \<open>
  The randomized trial solver plays what it reports. Let the level reset give the same
  engine state on every instance. If the search reports a found run, then the reported
  click frames and macro text are those of a decision sequence that, played as a trial
  is played (level reset, the two frames of reinitialization, then frame by frame) on
  any instance, ends by the success check at one and the same frame in one and the same
  state.
\<close>

lemma solverRun_found_replays:
  assumes "\<forall>s s'. resetLevelFromStart E s = resetLevelFromStart E s'"
    and "solverRun E R now seed (Some p) g = (Some w, g')"
    and "found w"
  shows "\<exists>sq f q. foundClicks w = recordClicks sq \<and> lastReplayData g' = encode sq
            \<and> f < length sq \<and> (\<forall>p'. playTrial E p' sq = (Succeeded, f, q))"
proof -
  have fresh: "playTrial E p1 sq = playTrial E p2 sq" for p1 p2 sq
    using assms(1) by (intro playTrial_fresh) blast
  define Q where "Q cs \<longleftrightarrow>
    (\<exists>sq f q. cs = recordClicks sq \<and> f < length sq \<and> (\<forall>p'. playTrial E p' sq = (Succeeded, f, q)))" for cs
  let ?p1 = "if \<not> isGameplayActive E p then startGame E p else p"
  let ?init = "\<lparr>clockReads = 2, pl = ?p1, rng = seed, found = False, foundClicks = [],
                statusLabel = [''Solver starting...'']\<rparr>"
  let ?w = "trialLoop E R now (now 1 + TIMEOUT_MS_rand) 0 ?init"
  from assms(2,3) have fw: "found ?w" and cw: "foundClicks w = foundClicks ?w"
    and gw: "lastReplayData g' = macroText (foundClicks ?w)"
    by (auto simp: solverRun_def Let_def split: if_splits)
  have step: "Q (foundClicks (trialBody E R trial v))"
    if "\<not> found v" "found (trialBody E R trial v)" for trial v
  proof -
    obtain seqLen clickProb sq r where d: "drawSeq R (rng v) = (seqLen, clickProb, sq, r)"
      by (cases "drawSeq R (rng v)")
    obtain res f q where t: "playTrial E (pl v) sq = (res, f, q)"
      by (cases "playTrial E (pl v) sq")
    from trialBody_found(1) [OF d t] that have res: "res = Succeeded" by simp
    with trialBody_found(2) [OF d t] have c: "foundClicks (trialBody E R trial v) = recordClicks sq"
      by simp
    from t res have "f < length sq"
      using simulate_Succeeded_frame [of E 0 sq _ f q] by (simp add: playTrial_def)
    moreover have "\<forall>p'. playTrial E p' sq = (Succeeded, f, q)"
      using t res fresh [of _ sq "pl v"] by simp
    ultimately show ?thesis unfolding Q_def using c by blast
  qed
  have "Q (foundClicks ?w)"
    by (rule trialLoop_found [where Q = Q, OF _ step fw]) simp_all
  then obtain sq f q where "foundClicks ?w = recordClicks sq" "f < length sq"
    "\<forall>p'. playTrial E p' sq = (Succeeded, f, q)"
    unfolding Q_def by blast
  with cw gw show ?thesis
    by (auto simp: encode_def)
qed

lemma toy_replay_fails:
  "simulate toyEngine 0 [\<lparr>click = False\<rparr>, \<lparr>click = True\<rparr>] (resetLevelFromStart toyEngine toyStart) =
     (Died, 1, \<lparr>history = [False, True], pressed = False, saved = []\<rparr>)"
  "playTrial toyEngine toyStart [\<lparr>click = False\<rparr>, \<lparr>click = True\<rparr>] =
     (Died, 0, \<lparr>history = [False, False, False], pressed = False, saved = []\<rparr>)"
  by (simp_all add: playTrial_def stepFrame_def toyEngine_def toyStart_def)

text \<open>
  Claim C1 on the code. The engine-driven depth-first search is a search, and the
  sequence it reports as found need not replay: it takes its snapshot once, before the
  search, so after a failed branch the engine is back at the start of the search while
  the accumulated sequence keeps its prefix. On the toy play layer it reports "no
  click, click" as found. Replayed on a freshly reset instance frame by frame, this
  sequence never passes the success check and ends by the failure check at frame 1;
  replayed as the randomized solver plays a trial, it ends by the failure check at
  frame 0.
\<close>

theorem C1_dfs_found_sequence_fails_replay:
  "dfs_found (runSolverAndRecord toyEngine (\<lambda>k. 0) toyStart)
   \<and> best (runSolverAndRecord toyEngine (\<lambda>k. 0) toyStart) = [\<lparr>click = False\<rparr>, \<lparr>click = True\<rparr>]
   \<and> simulate toyEngine 0 [\<lparr>click = False\<rparr>, \<lparr>click = True\<rparr>]
        (resetLevelFromStart toyEngine toyStart) =
       (Died, 1, \<lparr>history = [False, True], pressed = False, saved = []\<rparr>)
   \<and> playTrial toyEngine toyStart [\<lparr>click = False\<rparr>, \<lparr>click = True\<rparr>] =
       (Died, 0, \<lparr>history = [False, False, False], pressed = False, saved = []\<rparr>)"
  using toy_run toy_replay_fails by simp


text \<open>
  Claim C6, as stated, fails: on success the click frames of the whole generated
  sequence are recorded. With the runner and the scripted random source the first trial
  succeeds at frame 0, where no click was played, and the reported result holds frame
  1, which was never played.
\<close>

theorem C6_found_lists_whole_trial:
  "drawSeq scriptedRng 0 =
     (60, 2 / 25, \<lparr>click = False\<rparr> # \<lparr>click = True\<rparr> # replicate 58 \<lparr>click = False\<rparr>, 62)
   \<and> playTrial runnerEngine (runnerStart\<lparr>started := True\<rparr>)
        (\<lparr>click = False\<rparr> # \<lparr>click = True\<rparr> # replicate 58 \<lparr>click = False\<rparr>) =
       (Succeeded, 0, \<lparr>ticks = 3, pos = 3, started = True\<rparr>)
   \<and> recordClicks (take (Suc 0) (\<lparr>click = False\<rparr> # \<lparr>click = True\<rparr> # replicate 58 \<lparr>click = False\<rparr>)) = []
   \<and> map_option foundClicks
        (fst (solverRun runnerEngine scriptedRng (\<lambda>k. 0) 0 (Some runnerStart)
           \<lparr>lastReplayData = [], running = True\<rparr>)) = Some [1]
   \<and> lastReplayData
        (snd (solverRun runnerEngine scriptedRng (\<lambda>k. 0) 0 (Some runnerStart)
           \<lparr>lastReplayData = [], running = True\<rparr>)) = ''1''"
  by (simp add: drawSeq_scripted playTrial_runner solverRun_runner recordClicks_def)

text \<open>
  Claim C6, amended. In a trial where the success check fires at frame \<open>f\<close>, the result
  is marked found and holds the click frames of the whole generated sequence: those of
  the prefix played, frames 0 to \<open>f\<close>, followed by those of the frames after \<open>f\<close>,
  which were not played; its entries up to \<open>f\<close> are exactly the clicks of the prefix.
\<close>

theorem C6_found_clicks:
  assumes "drawSeq R (rng w) = (seqLen, clickProb, sq, r)"
    and "playTrial E (pl w) sq = (Succeeded, f, p)"
  shows "found (trialBody E R trial w)
    \<and> f < length sq
    \<and> foundClicks (trialBody E R trial w) = recordClicks sq
    \<and> foundClicks (trialBody E R trial w) =
        recordClicks (take (Suc f) sq) @ clickFrames (int (Suc f)) (drop (Suc f) sq)
    \<and> filter (\<lambda>i. i \<le> int f) (foundClicks (trialBody E R trial w)) = recordClicks (take (Suc f) sq)"
proof -
  have fl: "f < length sq"
    using assms(2) simulate_Succeeded_frame [of E 0 sq _ f p] by (simp add: playTrial_def)
  have a: "found (trialBody E R trial w)"
    and b: "foundClicks (trialBody E R trial w) = recordClicks sq"
    using trialBody_found(1,2) [OF assms] by simp_all
  have "clickFrames 0 (take (Suc f) sq @ drop (Suc f) sq) =
      clickFrames 0 (take (Suc f) sq) @ clickFrames (0 + int (length (take (Suc f) sq))) (drop (Suc f) sq)"
    by (rule clickFrames_append)
  moreover have "length (take (Suc f) sq) = Suc f" using fl by simp
  ultimately have c: "recordClicks sq =
      recordClicks (take (Suc f) sq) @ clickFrames (int (Suc f)) (drop (Suc f) sq)"
    by (simp add: recordClicks_def)
  have "i \<le> int f" if "i \<in> set (recordClicks (take (Suc f) sq))" for i
    using clickFrames_lt [of i 0 "take (Suc f) sq"] that fl by (simp add: recordClicks_def)
  then have "\<forall>i \<in> set (recordClicks (take (Suc f) sq)). i \<le> int f" by blast
  moreover have "\<not> i \<le> int f" if "i \<in> set (clickFrames (int (Suc f)) (drop (Suc f) sq))" for i
    using clickFrames_ge [of i "int (Suc f)" "drop (Suc f) sq"] that by simp
  then have "\<forall>i \<in> set (clickFrames (int (Suc f)) (drop (Suc f) sq)). \<not> i \<le> int f" by blast
  ultimately have d: "filter (\<lambda>i. i \<le> int f) (recordClicks sq) = recordClicks (take (Suc f) sq)"
    by (subst c) (simp add: filter_id_conv filter_empty_conv)
  from a fl b c d show ?thesis by simp
qed

theorem C6_found_clicks_witness:
  "found (trialBody runnerEngine scriptedRng 0
     \<lparr>clockReads = 3, pl = runnerStart, rng = 0, found = False, foundClicks = [],
       statusLabel = [''Solver starting...'']\<rparr>)
   \<and> filter (\<lambda>i. i \<le> int 0) (foundClicks (trialBody runnerEngine scriptedRng 0
     \<lparr>clockReads = 3, pl = runnerStart, rng = 0, found = False, foundClicks = [],
       statusLabel = [''Solver starting...'']\<rparr>)) = []"
proof -
  let ?w = "\<lparr>clockReads = 3, pl = runnerStart, rng = (0::nat), found = False, foundClicks = [],
       statusLabel = [''Solver starting...'']\<rparr>"
  have d: "drawSeq scriptedRng (rng ?w) =
     (60, 2 / 25, \<lparr>click = False\<rparr> # \<lparr>click = True\<rparr> # replicate 58 \<lparr>click = False\<rparr>, 62)"
    by (simp add: drawSeq_scripted)
  have t: "playTrial runnerEngine (pl ?w)
      (\<lparr>click = False\<rparr> # \<lparr>click = True\<rparr> # replicate 58 \<lparr>click = False\<rparr>) =
     (Succeeded, 0, \<lparr>ticks = 3, pos = 3, started = True\<rparr>)"
    by (rule playTrial_runner)
  from C6_found_clicks [OF d t, of 0] show ?thesis
    by (simp add: recordClicks_def clickFrames_replicate_False)
qed

text \<open>
  Claim C7, as stated, fails: started while gameplay is not active, the search starts
  the game, runs a trial and here reports a found run.
\<close>

theorem C7_search_runs_when_not_ready:
  "\<not> isGameplayActive runnerEngine runnerStart
   \<and> solverRun runnerEngine scriptedRng (\<lambda>k. 0) 0 (Some runnerStart) \<lparr>lastReplayData = [], running = True\<rparr> =
   (Some \<lparr>clockReads = 4, pl = \<lparr>ticks = 3, pos = 3, started = True\<rparr>, rng = 62, found = True,
       foundClicks = [1],
       statusLabel = [''Solver starting...'', ''Trying... trial 0/500 (seq 60)'',
          ''Found a run! Preparing export...'', ''Ready to export (click Export).'']\<rparr>,
    \<lparr>lastReplayData = ''1'', running = False\<rparr>)"
  using solverRun_runner by (simp add: runnerEngine_def runnerStart_def)

text \<open>
  Claim C7, amended. If gameplay is not active when the search begins and
  \<^verbatim>\<open>startGame()\<close> makes it active, the search goes on exactly as a search begun on the
  started game: it reports "Solver starting...", spends the trial and time budget as
  usual and ends with a found run or with "No run found (timeout / trials exhausted)";
  there is no outcome for a simulation that is not ready. Only without a play layer does
  it return at once, and then it reports nothing and changes nothing.
\<close>

theorem C7_not_ready_starts_game:
  assumes "\<not> isGameplayActive E p" and "isGameplayActive E (startGame E p)"
  shows "solverRun E R now seed (Some p) g = solverRun E R now seed (Some (startGame E p)) g
    \<and> solverRun E R now seed None g = (None, g)
    \<and> (\<exists>w g'. solverRun E R now seed (Some p) g = (Some w, g') \<and> \<not> running g'
          \<and> hd (statusLabel w) = ''Solver starting...''
          \<and> last (statusLabel w) =
              (if found w then ''Ready to export (click Export).''
               else ''No run found (timeout / trials exhausted).''))"
proof -
  have a: "solverRun E R now seed (Some p) g = solverRun E R now seed (Some (startGame E p)) g"
    using assms by (simp add: solverRun_def)
  have b: "solverRun E R now seed None g = (None, g)"
    by (simp add: solverRun_def)
  have hd_keep: "statusLabel (trialBody E R trial v) \<noteq> [] \<and> hd (statusLabel (trialBody E R trial v)) = hd (statusLabel v)"
    if "statusLabel v \<noteq> []" for trial v
    using that by (auto simp: trialBody_def Let_def split: prod.splits)
  have loop: "statusLabel (trialLoop E R now deadline trial v) \<noteq> []
      \<and> hd (statusLabel (trialLoop E R now deadline trial v)) = hd (statusLabel v)"
    if "statusLabel v \<noteq> []" for deadline trial v
    using that
  proof (induction E R now deadline trial v rule: trialLoop.induct)
    case (1 E R now deadline trial w)
    let ?adv = "w\<lparr>clockReads := Suc (clockReads w)\<rparr>"
    show ?case
    proof (cases "trial < MAX_TRIALS \<and> now (clockReads w) < deadline \<and> \<not> found w")
      case True
      then have u: "trialLoop E R now deadline trial w =
          trialLoop E R now deadline (trial + 1) (trialBody E R trial ?adv)"
        by (subst trialLoop.simps) (simp add: Let_def)
      have k: "statusLabel (trialBody E R trial ?adv) \<noteq> []"
          "hd (statusLabel (trialBody E R trial ?adv)) = hd (statusLabel w)"
        using "1.prems" by (auto simp: trialBody_def Let_def split: prod.splits)
      have "statusLabel (trialLoop E R now deadline (trial + 1) (trialBody E R trial ?adv)) \<noteq> []
        \<and> hd (statusLabel (trialLoop E R now deadline (trial + 1) (trialBody E R trial ?adv))) =
           hd (statusLabel (trialBody E R trial ?adv))"
      proof (rule "1.IH")
        show "trial < MAX_TRIALS" using True by simp
        show "now (clockReads w) = now (clockReads w)" by simp
        show "?adv = ?adv" by simp
        show "now (clockReads w) < deadline \<and> \<not> found ?adv" using True by simp
        show "statusLabel (trialBody E R trial ?adv) \<noteq> []" by (rule k)
      qed
      with u k show ?thesis by simp
    next
      case False
      then have "trialLoop E R now deadline trial w = (if trial < MAX_TRIALS then ?adv else w)"
        by (subst trialLoop.simps) (auto simp: Let_def)
      with "1.prems" show ?thesis by simp
    qed
  qed
  let ?p1 = "if \<not> isGameplayActive E p then startGame E p else p"
  let ?init = "\<lparr>clockReads = 2, pl = ?p1, rng = seed, found = False, foundClicks = [],
                statusLabel = [''Solver starting...'']\<rparr>"
  let ?w = "trialLoop E R now (now 1 + TIMEOUT_MS_rand) 0 ?init"
  have l: "statusLabel ?w \<noteq> []" "hd (statusLabel ?w) = ''Solver starting...''"
    using loop [where v = ?init and trial = 0 and deadline = "now 1 + TIMEOUT_MS_rand"] by simp_all
  have c: "\<exists>w g'. solverRun E R now seed (Some p) g = (Some w, g') \<and> \<not> running g'
          \<and> hd (statusLabel w) = ''Solver starting...''
          \<and> last (statusLabel w) =
              (if found w then ''Ready to export (click Export).''
               else ''No run found (timeout / trials exhausted).'')"
  proof (cases "found ?w")
    case True
    then show ?thesis using l by (simp add: solverRun_def Let_def)
  next
    case False
    then show ?thesis using l by (simp add: solverRun_def Let_def)
  qed
  from a b c show ?thesis by blast
qed

theorem C7_not_ready_starts_game_witness:
  "solverRun runnerEngine scriptedRng (\<lambda>k. 0) 0 (Some runnerStart) \<lparr>lastReplayData = [], running = True\<rparr> =
   solverRun runnerEngine scriptedRng (\<lambda>k. 0) 0 (Some (startGame runnerEngine runnerStart))
     \<lparr>lastReplayData = [], running = True\<rparr>"
proof -
  have a: "\<not> isGameplayActive runnerEngine runnerStart"
    by (simp add: runnerEngine_def runnerStart_def)
  have b: "isGameplayActive runnerEngine (startGame runnerEngine runnerStart)"
    by (simp add: runnerEngine_def runnerStart_def)
  from C7_not_ready_starts_game [OF a b] show ?thesis by (rule conjunct1)
qed


text \<open>
  Claim C10. Every trial draws its length from \<^verbatim>\<open>uniform_int_distribution<int>(60, 600)\<close>,
  600 being \<open>min MAX_SEARCH_FRAMES 600\<close> with \<open>MAX_SEARCH_FRAMES = 1800\<close>, and its click
  probability from \<^verbatim>\<open>uniform_real_distribution<float>(0.01, 0.15)\<close>. With distributions
  that return a value between their bounds, the sequence of the trial has between 60
  and 600 frames and the click probability lies between 0.01 and 0.15.
\<close>

theorem C10_trial_ranges:
  assumes "\<forall>a b r. a \<le> b \<longrightarrow>
      a \<le> fst (uniform_int_distribution R a b r) \<and> fst (uniform_int_distribution R a b r) \<le> b"
    and "\<forall>a b r. a \<le> b \<longrightarrow>
      a \<le> fst (uniform_real_distribution R a b r) \<and> fst (uniform_real_distribution R a b r) \<le> b"
    and "drawSeq R (rng w) = (seqLen, clickProb, sq, r')"
  shows "MAX_SEARCH_FRAMES_rand = 1800 \<and> min MAX_SEARCH_FRAMES_rand 600 = 600
    \<and> seqLen = fst (uniform_int_distribution R 60 600 (rng w))
    \<and> clickProb = fst (uniform_real_distribution R (1 / 100) (15 / 100)
          (snd (uniform_int_distribution R 60 600 (rng w))))
    \<and> 60 \<le> seqLen \<and> seqLen \<le> 600
    \<and> 1 / 100 \<le> clickProb \<and> clickProb \<le> 15 / 100
    \<and> length sq = nat seqLen \<and> 60 \<le> length sq \<and> length sq \<le> 600
    \<and> rng (trialBody E R trial w) = r'"
proof -
  note parts = drawSeq_parts [OF assms(3)]
  have i: "60 \<le> seqLen \<and> seqLen \<le> 600"
    using assms(1) parts(1) by simp
  have c: "1 / 100 \<le> clickProb \<and> clickProb \<le> 15 / 100"
  proof -
    have "(1 / 100 :: real) \<le> 15 / 100" by simp
    with assms(2) have "1 / 100 \<le> fst (uniform_real_distribution R (1 / 100) (15 / 100) x)
        \<and> fst (uniform_real_distribution R (1 / 100) (15 / 100) x) \<le> 15 / 100" for x
      by blast
    then show ?thesis unfolding parts(2) by blast
  qed
  have l: "60 \<le> length sq \<and> length sq \<le> 600"
    using i parts(3) by linarith
  have r: "rng (trialBody E R trial w) = r'"
    using assms(3) by (simp add: trialBody_def Let_def split: prod.splits)
  have m: "MAX_SEARCH_FRAMES_rand = 1800" by (simp add: MAX_SEARCH_FRAMES_rand_def)
  from m min_frames_rand parts i c l r show ?thesis by blast
qed

theorem C10_trial_ranges_witness:
  "length (\<lparr>click = False\<rparr> # \<lparr>click = True\<rparr> # replicate 58 \<lparr>click = False\<rparr>) = nat 60
   \<and> (1 / 100 :: real) \<le> 2 / 25 \<and> (2 / 25 :: real) \<le> 15 / 100"
proof -
  let ?w = "\<lparr>clockReads = 3, pl = runnerStart, rng = (0::nat), found = False, foundClicks = [],
       statusLabel = [''Solver starting...'']\<rparr>"
  have a: "\<forall>a b r. a \<le> b \<longrightarrow>
      a \<le> fst (uniform_int_distribution scriptedRng a b r)
      \<and> fst (uniform_int_distribution scriptedRng a b r) \<le> b"
    by (simp add: scriptedRng_def)
  have b: "\<forall>a b r. a \<le> b \<longrightarrow>
      a \<le> fst (uniform_real_distribution scriptedRng a b r)
      \<and> fst (uniform_real_distribution scriptedRng a b r) \<le> b"
    by (simp add: scriptedRng_def)
  have d: "drawSeq scriptedRng (rng ?w) =
     (60, 2 / 25, \<lparr>click = False\<rparr> # \<lparr>click = True\<rparr> # replicate 58 \<lparr>click = False\<rparr>, 62)"
    by (simp add: drawSeq_scripted)
  from C10_trial_ranges [OF a b d] show ?thesis by blast
qed

section \<open>Depth cap and deadline\<close>

lemma solver_unfold_enters:
  "solver_enters now start frame st \<Longrightarrow>
   solver_dfs now start frame st =
     (case solver_dfs now start (frame + 1) (solverNoClickChild st) of
        (ok, st2) \<Rightarrow>
          if ok then (True, st2)
          else (case solver_dfs now start (frame + 1) (solverClickChild st2) of
                  (ok', st3) \<Rightarrow>
                    if ok' then (True, st3) else (False, st3\<lparr>seq := butlast (seq st3)\<rparr>)))"
  by (subst solver_dfs.simps)
    (auto simp: solver_enters_def Let_def solverNoClickChild_def solverClickChild_def
      split: prod.splits)

lemma solver_unfold_succeeds:
  "solver_succeeds now start frame st \<Longrightarrow>
   solver_dfs now start frame st =
     (True, st\<lparr>clockReads := Suc (clockReads st), foundSequence := seq st\<rparr>)"
  by (subst solver_dfs.simps) (simp add: solver_succeeds_def Let_def)

lemma solver_unfold_stops:
  "\<not> solver_enters now start frame st \<Longrightarrow> \<not> solver_succeeds now start frame st \<Longrightarrow>
   solver_dfs now start frame st = (False, st\<lparr>clockReads := Suc (clockReads st)\<rparr>)"
  by (subst solver_dfs.simps) (auto simp: solver_enters_def solver_succeeds_def Let_def)

lemma solver_False_seq:
  "solver_dfs now start frame st = (False, st') \<Longrightarrow>
   seq st' = seq st \<and> foundSequence st' = foundSequence st"
proof (induction "nat (MAX_SEARCH_FRAMES - frame)" arbitrary: frame st st' rule: less_induct)
  case less
  show ?case
  proof (cases "solver_enters now start frame st")
    case False
    then show ?thesis
      using less.prems solver_unfold_succeeds [of now start frame st]
        solver_unfold_stops [of now start frame st]
      by (cases "solver_succeeds now start frame st") auto
  next
    case True
    then have lt: "nat (MAX_SEARCH_FRAMES - (frame + 1)) < nat (MAX_SEARCH_FRAMES - frame)"
      by (simp add: solver_enters_def)
    obtain ok1 st2 where r1: "solver_dfs now start (frame + 1) (solverNoClickChild st) = (ok1, st2)"
      by (cases "solver_dfs now start (frame + 1) (solverNoClickChild st)")
    obtain ok2 st3 where r2: "solver_dfs now start (frame + 1) (solverClickChild st2) = (ok2, st3)"
      by (cases "solver_dfs now start (frame + 1) (solverClickChild st2)")
    from less.prems True r1 r2 have n1: "\<not> ok1" and n2: "\<not> ok2"
      and st': "st' = st3\<lparr>seq := butlast (seq st3)\<rparr>"
      by (auto simp: solver_unfold_enters split: if_splits)
    from less.hyps [OF lt] r1 n1
    have c2: "seq st2 = seq (solverNoClickChild st)"
      "foundSequence st2 = foundSequence (solverNoClickChild st)" by simp_all
    from less.hyps [OF lt] r2 n2
    have c3: "seq st3 = seq (solverClickChild st2)"
      "foundSequence st3 = foundSequence (solverClickChild st2)" by simp_all
    show ?thesis
      by (simp add: st' c3 solverClickChild_def) (simp add: c2 solverNoClickChild_def)
  qed
qed

lemma solver_True_length:
  "solver_dfs now start frame st = (True, st') \<Longrightarrow> 0 \<le> frame \<Longrightarrow> length (seq st) = nat frame \<Longrightarrow>
   foundSequence st' = seq st' \<and> length (seq st') < nat MAX_SEARCH_FRAMES"
proof (induction "nat (MAX_SEARCH_FRAMES - frame)" arbitrary: frame st st' rule: less_induct)
  case less
  show ?case
  proof (cases "solver_enters now start frame st")
    case False
    then have s: "solver_succeeds now start frame st"
      using less.prems(1) solver_unfold_stops [of now start frame st] by auto
    then have "st' = st\<lparr>clockReads := Suc (clockReads st), foundSequence := seq st\<rparr>"
      using less.prems(1) by (simp add: solver_unfold_succeeds)
    moreover from s have "frame < MAX_SEARCH_FRAMES" by (simp add: solver_succeeds_def)
    ultimately show ?thesis using less.prems(2,3) by simp
  next
    case True
    then have lt: "nat (MAX_SEARCH_FRAMES - (frame + 1)) < nat (MAX_SEARCH_FRAMES - frame)"
      by (simp add: solver_enters_def)
    obtain ok1 st2 where r1: "solver_dfs now start (frame + 1) (solverNoClickChild st) = (ok1, st2)"
      by (cases "solver_dfs now start (frame + 1) (solverNoClickChild st)")
    have l1: "length (seq (solverNoClickChild st)) = nat (frame + 1)" and f1: "0 \<le> frame + 1"
      using less.prems(2,3) by (simp_all add: solverNoClickChild_def)
    show ?thesis
    proof (cases ok1)
      case True
      with less.prems(1) \<open>solver_enters now start frame st\<close> r1 have "st' = st2"
        by (simp add: solver_unfold_enters)
      with less.hyps [OF lt _ f1 l1] r1 True show ?thesis by simp
    next
      case False
      obtain ok2 st3 where r2: "solver_dfs now start (frame + 1) (solverClickChild st2) = (ok2, st3)"
        by (cases "solver_dfs now start (frame + 1) (solverClickChild st2)")
      from less.prems(1) \<open>solver_enters now start frame st\<close> r1 r2 False
      have ok2: "ok2" and st': "st' = st3"
        by (auto simp: solver_unfold_enters split: if_splits)
      from r1 False have "solver_dfs now start (frame + 1) (solverNoClickChild st) = (False, st2)"
        by simp
      then have "seq st2 = seq (solverNoClickChild st)"
        using solver_False_seq by blast
      then have l2: "length (seq (solverClickChild st2)) = nat (frame + 1)"
        using l1 by (simp add: solverClickChild_def solverNoClickChild_def)
      from less.hyps [OF lt _ f1 l2] r2 ok2 st' show ?thesis by simp
    qed
  qed
qed

lemma solver_call_invariant:
  "solver_call now start c c' \<Longrightarrow> 0 \<le> fst c \<Longrightarrow> fst c \<le> MAX_SEARCH_FRAMES \<Longrightarrow>
   length (seq (snd c)) = nat (fst c) \<Longrightarrow>
   fst c \<le> fst c' \<and> fst c' \<le> MAX_SEARCH_FRAMES \<and> length (seq (snd c')) = nat (fst c')"
proof (induction rule: solver_call.induct)
  case (solver_here c)
  then show ?case by simp
next
  case (solver_into_no_click frame st c)
  from solver_into_no_click.hyps(1) have "frame < MAX_SEARCH_FRAMES" by (simp add: solver_enters_def)
  moreover from solver_into_no_click.prems have "nat (frame + 1) = Suc (nat frame)" by simp
  ultimately show ?case
    using solver_into_no_click.prems solver_into_no_click.IH by (simp add: solverNoClickChild_def)
next
  case (solver_into_click frame st st2 c)
  from solver_into_click.hyps(1) have "frame < MAX_SEARCH_FRAMES" by (simp add: solver_enters_def)
  moreover from solver_into_click.hyps(2) have "seq st2 = seq (solverNoClickChild st)"
    using solver_False_seq by blast
  moreover from solver_into_click.prems have "nat (frame + 1) = Suc (nat frame)" by simp
  ultimately show ?case
    using solver_into_click.prems solver_into_click.IH
    by (simp add: solverClickChild_def solverNoClickChild_def)
qed

lemma dfs_False_best:
  "dfs E now startTime frame w = (False, w') \<Longrightarrow> bestSequence w' = bestSequence w"
proof (induction "nat (MAX_SEARCH_FRAMES - frame)" arbitrary: frame w w' rule: less_induct)
  case less
  show ?case
  proof (cases "dfs_enters E now startTime frame w")
    case False
    then show ?thesis
      using less.prems dfs_unfold_succeeds [of E now startTime frame w]
        dfs_unfold_stops [of E now startTime frame w]
      by (cases "dfs_succeeds E now startTime frame w") auto
  next
    case True
    then have lt: "nat (MAX_SEARCH_FRAMES - (frame + 1)) < nat (MAX_SEARCH_FRAMES - frame)"
      by (simp add: dfs_enters_def)
    obtain ok1 w2 where r1: "dfs E now startTime (frame + 1) (noClickChild E w) = (ok1, w2)"
      by (cases "dfs E now startTime (frame + 1) (noClickChild E w)")
    obtain ok2 w4 where r2: "dfs E now startTime (frame + 1) (clickChild E w2) = (ok2, w4)"
      by (cases "dfs E now startTime (frame + 1) (clickChild E w2)")
    from less.prems True r1 r2 have n1: "\<not> ok1" and n2: "\<not> ok2" and w': "w' = afterClick E w4"
      by (auto simp: dfs_unfold_enters split: if_splits)
    from less.hyps [OF lt] r1 n1 have c2: "bestSequence w2 = bestSequence (noClickChild E w)" by simp
    from less.hyps [OF lt] r2 n2 have c4: "bestSequence w4 = bestSequence (clickChild E w2)" by simp
    show ?thesis
      by (simp add: w' afterClick_def c4 clickChild_def) (simp add: c2 noClickChild_def)
  qed
qed

lemma dfs_final_lengths:
  assumes "current w0 = []" and "bestSequence w0 = []"
  shows "length (current (snd (dfs E now startTime 0 w0))) \<le> nat MAX_SEARCH_FRAMES
    \<and> length (bestSequence (snd (dfs E now startTime 0 w0))) \<le> nat MAX_SEARCH_FRAMES"
proof -
  obtain ok w' where r: "dfs E now startTime 0 w0 = (ok, w')"
    by (cases "dfs E now startTime 0 w0")
  show ?thesis
  proof (cases ok)
    case True
    with r dfs_True_length [of E now startTime 0 w0 w'] assms show ?thesis by simp
  next
    case False
    with r dfs_False_current [of E now startTime 0 w0 w'] dfs_False_best [of E now startTime 0 w0 w']
      assms show ?thesis by simp
  qed
qed

lemma solver_final_lengths:
  assumes "seq st0 = []" and "foundSequence st0 = []"
  shows "length (seq (snd (solver_dfs now start 0 st0))) \<le> nat MAX_SEARCH_FRAMES
    \<and> length (foundSequence (snd (solver_dfs now start 0 st0))) \<le> nat MAX_SEARCH_FRAMES"
proof -
  obtain ok st' where r: "solver_dfs now start 0 st0 = (ok, st')"
    by (cases "solver_dfs now start 0 st0")
  show ?thesis
  proof (cases ok)
    case True
    with r solver_True_length [of now start 0 st0 st'] assms show ?thesis by simp
  next
    case False
    with r solver_False_seq [of now start 0 st0 st'] assms show ?thesis by simp
  qed
qed

lemma dfs_depth_cap:
  "MAX_SEARCH_FRAMES \<le> frame \<Longrightarrow>
   dfs E now startTime frame w = (False, w\<lparr>clockReads := Suc (clockReads w)\<rparr>)"
  by (rule dfs_unfold_stops) (simp_all add: dfs_enters_def dfs_succeeds_def)

lemma solver_depth_cap:
  "MAX_SEARCH_FRAMES \<le> frame \<Longrightarrow>
   solver_dfs now start frame st = (False, st\<lparr>clockReads := Suc (clockReads st)\<rparr>)"
  by (rule solver_unfold_stops) (simp_all add: solver_enters_def solver_succeeds_def)

lemma runner_depth2:
  "noClickChild runnerEngine (noClickChild runnerEngine runnerSearch) =
     \<lparr>clockReads = 3, pl = \<lparr>ticks = 2, pos = 2, started = False\<rparr>,
       current = [\<lparr>click = False\<rparr>, \<lparr>click = False\<rparr>], bestSequence = []\<rparr>"
  by (simp add: noClickChild_def runnerSearch_def runnerStart_def runnerEngine_def)

lemma runner_call:
  "dfs_call runnerEngine lateClock 0 (0, runnerSearch)
     (2, noClickChild runnerEngine (noClickChild runnerEngine runnerSearch))"
proof -
  have e0: "dfs_enters runnerEngine lateClock 0 0 runnerSearch"
    by (simp add: dfs_enters_def lateClock_def runnerSearch_def runnerStart_def runnerEngine_def
        TIMEOUT_MS_def MAX_SEARCH_FRAMES_def)
  have e1: "dfs_enters runnerEngine lateClock 0 (0 + 1) (noClickChild runnerEngine runnerSearch)"
    by (simp add: dfs_enters_def lateClock_def runnerSearch_def runnerStart_def runnerEngine_def
        noClickChild_def TIMEOUT_MS_def MAX_SEARCH_FRAMES_def)
  have "dfs_call runnerEngine lateClock 0
      (0 + 1 + 1, noClickChild runnerEngine (noClickChild runnerEngine runnerSearch))
      (0 + 1 + 1, noClickChild runnerEngine (noClickChild runnerEngine runnerSearch))"
    by (rule dfs_call.here)
  then have "dfs_call runnerEngine lateClock 0 (0 + 1, noClickChild runnerEngine runnerSearch)
      (0 + 1 + 1, noClickChild runnerEngine (noClickChild runnerEngine runnerSearch))"
    by (rule dfs_call.into_no_click [OF e1])
  then have "dfs_call runnerEngine lateClock 0 (0, runnerSearch)
      (0 + 1 + 1, noClickChild runnerEngine (noClickChild runnerEngine runnerSearch))"
    by (rule dfs_call.into_no_click [OF e0])
  then show ?thesis by simp
qed

lemma runner_dfs:
  "dfs runnerEngine lateClock 0 0 runnerSearch =
     (False, \<lparr>clockReads = 6, pl = \<lparr>ticks = 4, pos = 0, started = False\<rparr>,
        current = [], bestSequence = []\<rparr>)"
  by (simp add: dfs.simps lateClock_def runnerSearch_def runnerStart_def runnerEngine_def
      Let_def stepFrame_def TIMEOUT_MS_def MAX_SEARCH_FRAMES_def)

text \<open>
  Claim C4, as stated, fails for the depth-first search: a timeout is returned like a
  dead end, so every pending call still plays its branch with a click before it
  returns. On the runner, with a clock that passes the deadline when the search is two
  frames deep, the call at frame 2 observes the deadline with two frames simulated, and
  the search ends with four: two frames are simulated after the deadline was observed.
\<close>

theorem C4_dfs_steps_after_deadline:
  "dfs_call runnerEngine lateClock 0 (0, runnerSearch)
     (2, noClickChild runnerEngine (noClickChild runnerEngine runnerSearch))
   \<and> lateClock (clockReads (noClickChild runnerEngine (noClickChild runnerEngine runnerSearch))) - 0
       > TIMEOUT_MS
   \<and> ticks (pl (noClickChild runnerEngine (noClickChild runnerEngine runnerSearch))) = 2
   \<and> ticks (pl (snd (dfs runnerEngine lateClock 0 0 runnerSearch))) = 4"
  using runner_call by (simp add: runner_dfs runner_depth2 lateClock_def TIMEOUT_MS_def)

text \<open>
  Claim C4, amended. The deadline is checked at the top of every call of the
  depth-first search and of every trial of the randomized search. Once the clock has
  passed the deadline for good, the call that observes it returns at once without
  stepping the engine, the search as a whole reports nothing found, and between that
  observation and its end it simulates at most one frame for each pending call, hence
  at most as many frames as the depth at which the deadline was observed, which is at
  most \<open>MAX_SEARCH_FRAMES\<close>. The number of frames simulated is measured by any counter
  \<open>cost\<close> of the engine state that \<^verbatim>\<open>update\<close> increments and that \<^verbatim>\<open>pushButton\<close> and
  \<^verbatim>\<open>restoreStateSnapshot\<close> keep. The randomized search starts no trial when the clock has
  reached the deadline at the top of the loop.
\<close>

theorem C4_deadline_checks:
  assumes "current w0 = []"
    and "dfs_call E now startTime (0, w0) (frame, w)"
    and "\<forall>k. clockReads w \<le> k \<longrightarrow> now k - startTime > TIMEOUT_MS"
    and "\<forall>p. cost (update E p) = Suc (cost p)"
    and "\<forall>p. cost (pushButton E p) = cost p"
    and "\<forall>p. cost (restoreStateSnapshot E p) = cost p"
    and "trial < MAX_TRIALS" and "deadline \<le> clk (clockReads v)"
  shows "dfs E now startTime frame w = (False, w\<lparr>clockReads := Suc (clockReads w)\<rparr>)
    \<and> \<not> fst (dfs E now startTime 0 w0)
    \<and> cost (pl (snd (dfs E now startTime 0 w0))) \<le> cost (pl w) + nat frame
    \<and> frame \<le> MAX_SEARCH_FRAMES
    \<and> trialLoop E' R clk deadline trial v = v\<lparr>clockReads := Suc (clockReads v)\<rparr>"
proof -
  have a: "dfs E now startTime frame w = (False, w\<lparr>clockReads := Suc (clockReads w)\<rparr>)"
    using assms(3) by (intro dfs_timeout) simp
  have e': "\<And>k. clockReads (snd (frame, w)) \<le> k \<Longrightarrow> now k - startTime > TIMEOUT_MS"
    using assms(3) by simp
  have t1: "\<And>p. cost (update E p) = Suc (cost p)"
    and t2: "\<And>p. cost (pushButton E p) = cost p"
    and t3: "\<And>p. cost (restoreStateSnapshot E p) = cost p"
    using assms(4-6) by simp_all
  note dfs_overrun [OF assms(2) e' t1 t2 t3]
  then have b: "\<not> fst (dfs E now startTime 0 w0)"
    and c: "cost (pl (snd (dfs E now startTime 0 w0))) \<le> cost (pl w) + nat frame"
    by simp_all
  have d: "frame \<le> MAX_SEARCH_FRAMES"
    using dfs_call_invariant [OF assms(2)] assms(1) by (simp add: MAX_SEARCH_FRAMES_def)
  have e: "trialLoop E' R clk deadline trial v = v\<lparr>clockReads := Suc (clockReads v)\<rparr>"
    using assms(7,8) by (rule trialLoop_deadline)
  from a b c d e show ?thesis by blast
qed

theorem C4_deadline_checks_witness:
  "\<not> fst (dfs runnerEngine lateClock 0 0 runnerSearch)
   \<and> ticks (pl (snd (dfs runnerEngine lateClock 0 0 runnerSearch))) \<le>
       ticks (pl (noClickChild runnerEngine (noClickChild runnerEngine runnerSearch))) + nat 2"
proof -
  let ?w = "noClickChild runnerEngine (noClickChild runnerEngine runnerSearch)"
  let ?v = "\<lparr>clockReads = 2, pl = runnerStart, rng = (0::nat), found = False, foundClicks = [],
       statusLabel = [''Solver starting...'']\<rparr>"
  have h1: "current runnerSearch = []" by (simp add: runnerSearch_def)
  have h3: "\<forall>k. clockReads ?w \<le> k \<longrightarrow> lateClock k - 0 > TIMEOUT_MS"
    by (simp add: runner_depth2 lateClock_def TIMEOUT_MS_def)
  have h4: "\<forall>p. ticks (update runnerEngine p) = Suc (ticks p)"
    and h5: "\<forall>p. ticks (pushButton runnerEngine p) = ticks p"
    and h6: "\<forall>p. ticks (restoreStateSnapshot runnerEngine p) = ticks p"
    by (simp_all add: runnerEngine_def)
  have h7: "(0::int) < MAX_TRIALS" by (simp add: MAX_TRIALS_def)
  have h8: "(0::int) \<le> 0" by simp
  from C4_deadline_checks [where clk = "\<lambda>k. 0" and v = ?v and deadline = 0 and cost = ticks,
      OF h1 runner_call h3 h4 h5 h6 h7 h8]
  show ?thesis by blast
qed

lemma solver_call_depth1:
  "solver_call lateClock 0 (0, solverStart) (1, solverNoClickChild solverStart)"
proof -
  have e0: "solver_enters lateClock 0 0 solverStart"
    by (simp add: solver_enters_def lateClock_def solverStart_def SOLVER_TIMEOUT_MS_def
        MAX_SEARCH_FRAMES_def)
  have "solver_call lateClock 0 (0 + 1, solverNoClickChild solverStart)
      (0 + 1, solverNoClickChild solverStart)"
    by (rule solver_call.solver_here)
  then have "solver_call lateClock 0 (0, solverStart) (0 + 1, solverNoClickChild solverStart)"
    by (rule solver_call.solver_into_no_click [OF e0])
  then show ?thesis by simp
qed

text \<open>
  Claim C5. In both depth-first solvers, started with an empty sequence, every call made
  during the search finds the accumulated sequence as long as its frame index, which is
  at most \<open>MAX_SEARCH_FRAMES\<close>; a call at frame \<open>MAX_SEARCH_FRAMES\<close> returns at once
  (the search backtracks); and when the search has ended, the accumulated and the
  reported sequence are at most \<open>MAX_SEARCH_FRAMES\<close> long. In the randomized solver,
  with a distribution that returns a value between its bounds, the generated sequence of
  a trial is at most \<open>MAX_SEARCH_FRAMES\<close> long.
\<close>

theorem C5_length_cap:
  assumes "current w0 = []" and "bestSequence w0 = []"
    and "dfs_call E now startTime (0, w0) (frame, w)"
    and "seq st0 = []" and "foundSequence st0 = []"
    and "solver_call clk start (0, st0) (frame', st)"
    and "\<forall>a b r. a \<le> b \<longrightarrow>
      a \<le> fst (uniform_int_distribution R a b r) \<and> fst (uniform_int_distribution R a b r) \<le> b"
    and "drawSeq R r = (seqLen, clickProb, sq, r')"
  shows "length (current w) = nat frame \<and> frame \<le> MAX_SEARCH_FRAMES
    \<and> length (current w) \<le> nat MAX_SEARCH_FRAMES
    \<and> length (current (snd (dfs E now startTime 0 w0))) \<le> nat MAX_SEARCH_FRAMES
    \<and> length (bestSequence (snd (dfs E now startTime 0 w0))) \<le> nat MAX_SEARCH_FRAMES
    \<and> dfs E now startTime MAX_SEARCH_FRAMES w' = (False, w'\<lparr>clockReads := Suc (clockReads w')\<rparr>)
    \<and> length (seq st) = nat frame' \<and> frame' \<le> MAX_SEARCH_FRAMES
    \<and> length (seq st) \<le> nat MAX_SEARCH_FRAMES
    \<and> length (seq (snd (solver_dfs clk start 0 st0))) \<le> nat MAX_SEARCH_FRAMES
    \<and> length (foundSequence (snd (solver_dfs clk start 0 st0))) \<le> nat MAX_SEARCH_FRAMES
    \<and> solver_dfs clk start MAX_SEARCH_FRAMES st' = (False, st'\<lparr>clockReads := Suc (clockReads st')\<rparr>)
    \<and> length sq \<le> nat MAX_SEARCH_FRAMES_rand"
proof -
  have a: "length (current w) = nat frame \<and> frame \<le> MAX_SEARCH_FRAMES"
    using dfs_call_invariant [OF assms(3)] assms(1) by (simp add: MAX_SEARCH_FRAMES_def)
  then have a': "length (current w) \<le> nat MAX_SEARCH_FRAMES" by linarith
  note b = dfs_final_lengths [OF assms(1,2), of E now startTime]
  have c: "dfs E now startTime MAX_SEARCH_FRAMES w' = (False, w'\<lparr>clockReads := Suc (clockReads w')\<rparr>)"
    by (rule dfs_depth_cap) simp
  have d: "length (seq st) = nat frame' \<and> frame' \<le> MAX_SEARCH_FRAMES"
    using solver_call_invariant [OF assms(6)] assms(4) by (simp add: MAX_SEARCH_FRAMES_def)
  then have d': "length (seq st) \<le> nat MAX_SEARCH_FRAMES" by linarith
  note e = solver_final_lengths [OF assms(4,5), of clk start]
  have f: "solver_dfs clk start MAX_SEARCH_FRAMES st' = (False, st'\<lparr>clockReads := Suc (clockReads st')\<rparr>)"
    by (rule solver_depth_cap) simp
  have "seqLen \<le> 600"
    using assms(7) drawSeq_parts(1) [OF assms(8)] by simp
  then have g: "length sq \<le> nat MAX_SEARCH_FRAMES_rand"
    using drawSeq_parts(3) [OF assms(8)] by (simp add: MAX_SEARCH_FRAMES_rand_def)
  from a a' b c d d' e f g show ?thesis by blast
qed

theorem C5_length_cap_witness:
  "length (current (noClickChild runnerEngine (noClickChild runnerEngine runnerSearch))) = nat 2
   \<and> length (current (snd (dfs runnerEngine lateClock 0 0 runnerSearch))) \<le> nat MAX_SEARCH_FRAMES
   \<and> length (seq (solverNoClickChild solverStart)) = nat 1
   \<and> length (\<lparr>click = False\<rparr> # \<lparr>click = True\<rparr> # replicate 58 \<lparr>click = False\<rparr>)
       \<le> nat MAX_SEARCH_FRAMES_rand"
proof -
  have h1: "current runnerSearch = []" and h2: "bestSequence runnerSearch = []"
    by (simp_all add: runnerSearch_def)
  have h4: "seq solverStart = []" and h5: "foundSequence solverStart = []"
    by (simp_all add: solverStart_def)
  have h7: "\<forall>a b r. a \<le> b \<longrightarrow>
      a \<le> fst (uniform_int_distribution scriptedRng a b r)
      \<and> fst (uniform_int_distribution scriptedRng a b r) \<le> b"
    by (simp add: scriptedRng_def)
  from C5_length_cap [OF h1 h2 runner_call h4 h5 solver_call_depth1 h7 drawSeq_scripted]
  show ?thesis by blast
qed

end
